theory Spec2Isabelle
  imports Complex_Main "HOL-Library.Char_ord" "HOL-Library.List_Lexorder"
    "HOL-Library.Product_Lexorder"
begin

section \<open>Python strings\<close>

text \<open>
  A Python \<open>str\<close> is a sequence of code points. The model takes the code points below
  256, one \<^typ>\<open>char\<close> each, so a string is a \<^typ>\<open>string\<close> and \<open>len\<close> is
  \<^const>\<open>length\<close>. Strings are compared as Python compares them, code point by code point
  (the orders of \<open>Char_ord\<close> and \<open>List_Lexorder\<close>).
\<close>

definition isspace :: "char \<Rightarrow> bool" where
  \<comment> \<open>\<open>str.isspace\<close> on one code point, which is also what \<open>\s\<close> matches and what
      \<open>str.strip()\<close> removes: TAB..CR, FS..US, space, NEL and the no-break space.\<close>
  "isspace c = (let n = (of_char c :: nat) in
     (9 \<le> n \<and> n \<le> 13) \<or> (28 \<le> n \<and> n \<le> 32) \<or> n = 133 \<or> n = 160)"

definition isdigit09 :: "char \<Rightarrow> bool" where
  \<comment> \<open>the character class \<open>[0-9]\<close>\<close>
  "isdigit09 c = (let n = (of_char c :: nat) in 48 \<le> n \<and> n \<le> 57)"

definition lower_char :: "char \<Rightarrow> char" where
  \<comment> \<open>\<open>str.lower\<close> on one code point below 256: A..Z and the accented capitals
      (all of 192..222 but the multiplication sign) move up by 32.\<close>
  "lower_char c = (let n = (of_char c :: nat) in
     if (65 \<le> n \<and> n \<le> 90) \<or> (192 \<le> n \<and> n \<le> 222 \<and> n \<noteq> 215)
     then char_of (n + 32) else c)"

definition lower :: "string \<Rightarrow> string" where
  "lower s = map lower_char s"

definition strip :: "string \<Rightarrow> string" where
  \<comment> \<open>\<open>s.strip()\<close>: leading and trailing whitespace removed\<close>
  "strip s = rev (dropWhile isspace (rev (dropWhile isspace s)))"

definition startswith :: "string \<Rightarrow> string \<Rightarrow> bool" where
  \<comment> \<open>\<open>s.startswith(p)\<close>, written \<open>startswith p s\<close>\<close>
  "startswith p s = (take (length p) s = p)"

definition endswith :: "string \<Rightarrow> string \<Rightarrow> bool" where
  "endswith p s = (length p \<le> length s \<and> drop (length s - length p) s = p)"

fun contains :: "string \<Rightarrow> string \<Rightarrow> bool" where
  \<comment> \<open>\<open>p in s\<close>: \<open>p\<close> occurs in \<open>s\<close> as a substring\<close>
  "contains p [] = (p = [])"
| "contains p (c # cs) = (startswith p (c # cs) \<or> contains p cs)"

fun replace :: "string \<Rightarrow> string \<Rightarrow> string \<Rightarrow> string" where
  \<comment> \<open>\<open>s.replace(old, new)\<close>, written \<open>replace old new s\<close>: the occurrences of \<open>old\<close>
      are found from the left and do not overlap; an empty \<open>old\<close> matches before every
      character and at the end.\<close>
  "replace old new [] = (if old = [] then new else [])"
| "replace old new (c # cs) =
     (if old = [] then new @ c # replace old new cs
      else if startswith old (c # cs) then new @ replace old new (drop (length old - 1) cs)
      else c # replace old new cs)"

function sub_runs :: "(char \<Rightarrow> bool) \<Rightarrow> string \<Rightarrow> string" where
  \<comment> \<open>\<open>re.sub(r"X+", " ", s)\<close> for a character class \<open>X\<close>: every maximal run of
      characters of the class becomes one space.\<close>
  "sub_runs X [] = []"
| "sub_runs X (c # cs) =
     (if X c then CHR '' '' # sub_runs X (dropWhile X cs) else c # sub_runs X cs)"
  by pat_completeness auto
termination
  by (relation "measure (\<lambda>(X, s). length s)")
    (auto simp: length_dropWhile_le less_Suc_eq_le)

section \<open>Note cleaner and aggregator (process_noteevents_text.py)\<close>

subsection \<open>The table\<close>

text \<open>
  A row of NOTEEVENTS.csv as \<open>pd.read_csv\<close> gives it. A missing cell is \<open>None\<close>.
  Every row has its patient identifier, and identifiers are whole numbers, so the
  \<open>int(...)\<close> that the grouping loop takes of them changes nothing. \<open>CHARTTIME\<close> holds what
  \<open>pd.to_datetime(..., errors='coerce')\<close> makes of the cell: an instant (in nanoseconds),
  or \<open>None\<close> for NaT, which is also what an unparseable cell is coerced to.
\<close>

record row =
  SUBJECT_ID :: int
  HADM_ID :: "int option"
  CHARTTIME :: "int option"
  CATEGORY :: "string option"
  TEXT :: "string option"

text \<open>A row after the rows with a missing text or admission are dropped.\<close>

record note_row =
  subject_id :: int
  hadm_id :: int
  charttime :: "int option"
  category :: "string option"
  note_text :: string

definition dropna :: "row list \<Rightarrow> note_row list" where
  \<comment> \<open>\<open>notes_df[notes_df['TEXT'].notna() & notes_df['HADM_ID'].notna()]\<close>\<close>
  "dropna df = List.map_filter (\<lambda>r.
     case (TEXT r, HADM_ID r) of
       (Some t, Some h) \<Rightarrow> Some \<lparr>subject_id = SUBJECT_ID r, hadm_id = h, charttime = CHARTTIME r,
                                 category = CATEGORY r, note_text = t\<rparr>
     | _ \<Rightarrow> None) df"

definition keep_categories :: "string list" where
  "keep_categories = [''Discharge summary'', ''Nursing'', ''Physician'']"

definition isin_keep :: "note_row list \<Rightarrow> note_row list" where
  \<comment> \<open>\<open>notes_df[notes_df['CATEGORY'].isin(keep_categories)]\<close>; a missing category is
      in no list.\<close>
  "isin_keep df = filter (\<lambda>r.
     case category r of None \<Rightarrow> False | Some c \<Rightarrow> c \<in> set keep_categories) df"

definition clean_text :: "string \<Rightarrow> string" where
  "clean_text t =
     (let t1 = lower t;
          t2 = sub_runs isspace t1;
          t3 = sub_runs (\<lambda>c. c = CHR ''_'') t2;
          t4 = replace ''**]'' '''' (replace ''[**'' '''' t3)
      in strip t4)"

definition drop_patterns :: "string list" where
  "drop_patterns = [''dictated by'', ''signed electronically'']"

definition drop_templates :: "note_row list \<Rightarrow> note_row list" where
  \<comment> \<open>\<open>notes_df[~notes_df['TEXT'].str.lower().str.contains('|'.join(drop_patterns))]\<close>:
      the joined pattern is an alternation of two literals.\<close>
  "drop_templates df = filter (\<lambda>r. \<not> (\<exists>p \<in> set drop_patterns. contains p (lower (note_text r)))) df"

definition map_clean :: "note_row list \<Rightarrow> note_row list" where
  \<comment> \<open>\<open>notes_df['TEXT'] = notes_df['TEXT'].map(clean_text)\<close>\<close>
  "map_clean df = map (\<lambda>r. r\<lparr>note_text := clean_text (note_text r)\<rparr>) df"

subsection \<open>Sorting and grouping\<close>

definition time_key :: "int option \<Rightarrow> nat \<times> int" where
  \<comment> \<open>\<open>sort_values\<close> puts NaT last (\<open>na_position='last'\<close>)\<close>
  "time_key t = (case t of Some v \<Rightarrow> (0, v) | None \<Rightarrow> (1, 0))"

definition sort_values :: "note_row list \<Rightarrow> note_row list" where
  \<comment> \<open>\<open>notes_df.sort_values(by=['SUBJECT_ID', 'HADM_ID', 'CHARTTIME'])\<close>: ascending,
      the columns compared in this order\<close>
  "sort_values df = sort_key (\<lambda>r. (subject_id r, hadm_id r, time_key (charttime r))) df"

text \<open>
  A \<open>defaultdict\<close> keeps its keys in the order of their first insertion, and the last loop
  of the script reads them in that order: it is an association list.
  \<open>d[k]\<close> on a missing key inserts the default at the end.
\<close>

fun dd_update :: "'k \<Rightarrow> 'v \<Rightarrow> ('v \<Rightarrow> 'v) \<Rightarrow> ('k \<times> 'v) list \<Rightarrow> ('k \<times> 'v) list" where
  \<comment> \<open>\<open>d[k] = f(d[k])\<close> on a \<open>defaultdict\<close> whose default is \<open>dflt\<close>\<close>
  "dd_update k dflt f [] = [(k, f dflt)]"
| "dd_update k dflt f ((k', v) # d) =
     (if k' = k then (k', f v) # d else (k', v) # dd_update k dflt f d)"

definition group_row :: "(int \<times> (int \<times> string list) list) list \<Rightarrow> note_row
    \<Rightarrow> (int \<times> (int \<times> string list) list) list" where
  \<comment> \<open>\<open>notes_grouped[subj][hadm].append(row['TEXT'])\<close>\<close>
  "group_row g r = dd_update (subject_id r) [] (dd_update (hadm_id r) [] (\<lambda>l. l @ [note_text r])) g"

definition notes_grouped :: "note_row list \<Rightarrow> (int \<times> (int \<times> string list) list) list" where
  "notes_grouped df = foldl group_row [] df"

subsection \<open>Merging short notes\<close>

definition min_note_len :: nat where
  "min_note_len = 40"

fun merge_loop :: "nat \<Rightarrow> string list \<Rightarrow> string \<Rightarrow> string list \<Rightarrow> string list \<times> string" where
  \<comment> \<open>the loop \<open>for note in note_list\<close>, from the state \<open>(combined, buffer)\<close>\<close>
  "merge_loop m combined buffer [] = (combined, buffer)"
| "merge_loop m combined buffer (note # note_list) =
     (if length note < m then merge_loop m combined (buffer @ '' '' @ note) note_list
      else if buffer \<noteq> [] then merge_loop m (combined @ [strip buffer] @ [note]) [] note_list
      else merge_loop m (combined @ [note]) buffer note_list)"

definition combine :: "nat \<Rightarrow> string list \<Rightarrow> string list" where
  \<comment> \<open>the body of \<open>for note_list in hadm_dict.values()\<close>: the value appended to
      \<open>grouped\<close>\<close>
  "combine m note_list =
     (case merge_loop m [] [] note_list of
        (combined, buffer) \<Rightarrow> if buffer \<noteq> [] then combined @ [strip buffer] else combined)"

definition note_sequences :: "(int \<times> (int \<times> string list) list) list
    \<Rightarrow> (int \<times> string list list) list" where
  \<comment> \<open>section 4 of the script: for each patient the list \<open>grouped\<close> of the merged
      note lists of the admissions, in the order of \<open>hadm_dict.values()\<close>\<close>
  "note_sequences g =
     map (\<lambda>(subj_id, hadm_dict).
            (subj_id, map (\<lambda>(h, note_list). combine min_note_len note_list) hadm_dict)) g"

definition prepare :: "row list \<Rightarrow> note_row list" where
  \<comment> \<open>sections 1 to 3 of the script up to the sorted table\<close>
  "prepare df = sort_values (map_clean (drop_templates (isin_keep (dropna df))))"

definition process_noteevents :: "row list \<Rightarrow> (int \<times> string list list) list" where
  \<comment> \<open>the whole script: the object saved to note_sequences_per_patient.npy\<close>
  "process_noteevents df = note_sequences (notes_grouped (prepare df))"

subsection \<open>Vocabulary of the properties\<close>

definition buffer_of :: "string list \<Rightarrow> string" where
  \<comment> \<open>the buffer after the short notes \<open>run\<close> were added to an empty buffer\<close>
  "buffer_of run = concat (map (\<lambda>n. '' '' @ n) run)"

fun occurs_in_order :: "string list \<Rightarrow> string \<Rightarrow> bool" where
  \<comment> \<open>the strings occur in \<open>s\<close> one after the other, without overlap\<close>
  "occurs_in_order [] s = True"
| "occurs_in_order (n # ns) s =
     (\<exists>i \<in> {0..length s}. take (length n) (drop i s) = n
        \<and> occurs_in_order ns (drop (i + length n) s))"

definition trailing_short :: "nat \<Rightarrow> string list \<Rightarrow> string list" where
  \<comment> \<open>the short notes after the last long one\<close>
  "trailing_short m note_list = rev (takeWhile (\<lambda>n. length n < m) (rev note_list))"

text \<open>
  What the loop makes of a note list, said apart from the loop: the list is cut into
  pieces, a long note alone or a maximal run of consecutive short notes, and every piece
  gives one output string.
\<close>

datatype piece = Long string | Flush "string list"

fun pieces :: "nat \<Rightarrow> string list \<Rightarrow> string list \<Rightarrow> piece list" where
  \<comment> \<open>\<open>run\<close> holds the short notes read since the last long one\<close>
  "pieces m run [] = (if run = [] then [] else [Flush run])"
| "pieces m run (n # ns) =
     (if length n < m then pieces m (run @ [n]) ns
      else (if run = [] then [] else [Flush run]) @ Long n # pieces m [] ns)"

fun notes_of :: "piece \<Rightarrow> string list" where
  "notes_of (Long n) = [n]"
| "notes_of (Flush run) = run"

fun render :: "piece \<Rightarrow> string" where
  "render (Long n) = n"
| "render (Flush run) = strip (buffer_of run)"

fun piece_ok :: "nat \<Rightarrow> piece \<Rightarrow> bool" where
  "piece_ok m (Long n) = (m \<le> length n)"
| "piece_ok m (Flush run) = (run \<noteq> [] \<and> list_all (\<lambda>n. length n < m) run)"

fun no_adjacent_flushes :: "piece list \<Rightarrow> bool" where
  "no_adjacent_flushes (Flush a # Flush b # ps) = False"
| "no_adjacent_flushes (p # ps) = no_adjacent_flushes ps"
| "no_adjacent_flushes [] = True"

definition rstrip :: "string \<Rightarrow> string" where
  \<comment> \<open>\<open>s.rstrip()\<close>\<close>
  "rstrip s = rev (dropWhile isspace (rev s))"

definition stripped :: "string \<Rightarrow> bool" where
  \<comment> \<open>a string with no whitespace at either end, as \<open>strip\<close> leaves it\<close>
  "stripped n = (n = [] \<or> (\<not> isspace (hd n) \<and> \<not> isspace (last n)))"

definition admission_rows :: "note_row list \<Rightarrow> int \<Rightarrow> int \<Rightarrow> note_row list" where
  \<comment> \<open>the rows of one admission of one patient, in the order of the table\<close>
  "admission_rows df s h = filter (\<lambda>r. subject_id r = s \<and> hadm_id r = h) df"

definition lookup2 :: "(int \<times> (int \<times> string list) list) list \<Rightarrow> int \<Rightarrow> int \<Rightarrow> string list" where
  \<comment> \<open>\<open>notes_grouped[s][h]\<close>, read without inserting\<close>
  "lookup2 g s h = (case map_of g s of None \<Rightarrow> [] | Some hadm_dict \<Rightarrow>
     (case map_of hadm_dict h of None \<Rightarrow> [] | Some l \<Rightarrow> l))"

definition dist2 :: "(int \<times> (int \<times> string list) list) list \<Rightarrow> bool" where
  \<comment> \<open>no key occurs twice, at either level\<close>
  "dist2 g = (distinct (map fst g) \<and> (\<forall>(s, d) \<in> set g. distinct (map fst d)))"


definition example_table :: "row list" where
  \<comment> \<open>a small NOTEEVENTS table, out of order, with a row of an unwanted category, a
      row without admission and a signature row, used to run the script on\<close>
  "example_table = [
     \<lparr>SUBJECT_ID = 1, HADM_ID = Some 1, CHARTTIME = Some 7, CATEGORY = Some ''Nursing'',
       TEXT = Some ''Stable  overnight''\<rparr>,
     \<lparr>SUBJECT_ID = 1, HADM_ID = Some 1, CHARTTIME = Some 3, CATEGORY = Some ''Nursing'',
       TEXT = Some ''Patient admitted with chest pain and shortness of breath.''\<rparr>,
     \<lparr>SUBJECT_ID = 1, HADM_ID = Some 1, CHARTTIME = Some 2, CATEGORY = Some ''Physician'',
       TEXT = Some ''short''\<rparr>,
     \<lparr>SUBJECT_ID = 1, HADM_ID = None, CHARTTIME = Some 2, CATEGORY = Some ''Physician'',
       TEXT = Some ''no admission''\<rparr>,
     \<lparr>SUBJECT_ID = 1, HADM_ID = Some 1, CHARTTIME = Some 4, CATEGORY = Some ''Radiology'',
       TEXT = Some ''chest film''\<rparr>,
     \<lparr>SUBJECT_ID = 1, HADM_ID = Some 1, CHARTTIME = Some 9, CATEGORY = Some ''Physician'',
       TEXT = Some ''Dictated By dr x''\<rparr>]"

section \<open>Best-iteration selector (best_stacking_meta_learner_across_iterations.py)\<close>

subsection \<open>Files\<close>

text \<open>
  The files the script can see, each under the path the script names it by
  (\<open>./name\<close> for a file of the directory \<open>BASE\<close>), in the order in which the directory
  lists them. A file that \<open>pd.read_csv\<close> reads as a table with a numeric column
  \<open>Macro-F1\<close> is a \<open>Table\<close> holding that column, where a missing cell is \<open>None\<close>
  (NaN); any other file is a \<open>Blob\<close>. Scores are exact rationals: the rounding of
  floating-point arithmetic is left out.
\<close>

datatype content = Table "rat option list" | Blob string

type_synonym fs = "(string \<times> content) list"

datatype error =
    FileNotFoundError string
  | ValueError string
  | LibraryError  \<comment> \<open>an exception that pandas raises, not the script\<close>

fun write_file :: "string \<Rightarrow> content \<Rightarrow> fs \<Rightarrow> fs" where
  \<comment> \<open>a file is overwritten where it is listed, a new file is listed last\<close>
  "write_file p c [] = [(p, c)]"
| "write_file p c ((q, d) # files) =
     (if q = p then (q, c) # files else (q, d) # write_file p c files)"

definition path_exists :: "string \<Rightarrow> fs \<Rightarrow> bool" where
  \<comment> \<open>\<open>os.path.exists\<close>\<close>
  "path_exists p files = (map_of files p \<noteq> None)"

definition BASE :: string where
  "BASE = ''./''"

definition path_join :: "string \<Rightarrow> string \<Rightarrow> string" where
  \<comment> \<open>\<open>os.path.join(a, b)\<close>\<close>
  "path_join a b =
     (if startswith ''/'' b then b
      else if a = [] \<or> endswith ''/'' a then a @ b
      else a @ ''/'' @ b)"

definition basename :: "string \<Rightarrow> string" where
  \<comment> \<open>\<open>os.path.basename\<close>: what follows the last slash\<close>
  "basename p = rev (takeWhile (\<lambda>c. c \<noteq> CHR ''/'') (rev p))"

definition glob_match :: "string \<Rightarrow> string \<Rightarrow> string \<Rightarrow> bool" where
  \<comment> \<open>the path is \<open>BASE\<close>, then a file name that starts with \<open>pre\<close> and ends with
      \<open>suf\<close>, the star between them matching any characters of the name\<close>
  "glob_match pre suf p =
     (startswith BASE p \<and> CHR ''/'' \<notin> set (drop (length BASE) p)
      \<and> startswith pre (drop (length BASE) p) \<and> endswith suf p
      \<and> length BASE + length pre + length suf \<le> length p)"

definition glob :: "string \<Rightarrow> string \<Rightarrow> fs \<Rightarrow> string list" where
  \<comment> \<open>\<open>glob.glob(BASE + pre + "*" + suf)\<close>: the matching paths, in the order of the
      directory listing. The script's first pattern has two slashes after the dot;
      \<open>glob\<close> returns the paths with one, as for the second pattern.\<close>
  "glob pre suf files = filter (glob_match pre suf) (map fst files)"

subsection \<open>Steps 1 to 3: the best iteration\<close>

definition fold_score_files :: "fs \<Rightarrow> string list" where
  "fold_score_files files = sort (glob ''stacker_best_model_folds_'' ''.csv'' files)"

definition read_macro_f1 :: "string \<Rightarrow> fs \<Rightarrow> error + rat option list" where
  \<comment> \<open>\<open>pd.read_csv(file)["Macro-F1"]\<close>\<close>
  "read_macro_f1 file files =
     (case map_of files file of
        Some (Table col) \<Rightarrow> Inr col
      | Some (Blob b) \<Rightarrow> Inl LibraryError
      | None \<Rightarrow> Inl (FileNotFoundError file))"

definition mean :: "rat option list \<Rightarrow> rat option" where
  \<comment> \<open>\<open>Series.mean()\<close>: the mean of the cells that are not missing, NaN when there is
      none\<close>
  "mean col =
     (let vs = List.map_filter id col
      in if vs = [] then None else Some (sum_list vs / of_nat (length vs)))"

fun iteration_scores :: "string list \<Rightarrow> fs \<Rightarrow> error + (string \<times> rat option) list" where
  \<comment> \<open>the loop of step 2: the rows \<open>(file, avg_macro_f1)\<close>\<close>
  "iteration_scores [] files = Inr []"
| "iteration_scores (file # rest) files =
     (case read_macro_f1 file files of
        Inl e \<Rightarrow> Inl e
      | Inr col \<Rightarrow>
          (case iteration_scores rest files of
             Inl e \<Rightarrow> Inl e
           | Inr rows \<Rightarrow> Inr ((file, mean col) # rows)))"

fun idxmax_from :: "nat \<Rightarrow> (nat \<times> rat) option \<Rightarrow> rat option list \<Rightarrow> (nat \<times> rat) option" where
  "idxmax_from i best [] = best"
| "idxmax_from i best (x # xs) =
     idxmax_from (Suc i)
       (case x of
          None \<Rightarrow> best
        | Some v \<Rightarrow>
            (case best of
               None \<Rightarrow> Some (i, v)
             | Some (j, b) \<Rightarrow> if b < v then Some (i, v) else best))
       xs"

definition idxmax :: "rat option list \<Rightarrow> (nat \<times> rat) option" where
  \<comment> \<open>\<open>Series.idxmax()\<close> on the default index: the position of the first occurrence of
      the maximum of the values that are not NaN, here with that maximum; \<open>None\<close> when
      all values are NaN (pandas then gives NaN or raises, and the \<open>.loc\<close> of the script
      raises on NaN).\<close>
  "idxmax xs = idxmax_from 0 None xs"

fun search_iter :: "string \<Rightarrow> string option" where
  \<comment> \<open>\<open>re.search(r"(iter[0-9]+)", s)\<close>, group 1: the leftmost \<open>iter\<close> that a digit
      follows, with all the digits that follow it\<close>
  "search_iter [] = None"
| "search_iter (c # cs) =
     (if startswith ''iter'' (c # cs) \<and> (case drop 4 (c # cs) of [] \<Rightarrow> False | d # ds \<Rightarrow> isdigit09 d)
      then Some (''iter'' @ takeWhile isdigit09 (drop 4 (c # cs)))
      else search_iter cs)"

definition best_row :: "fs \<Rightarrow> error + string \<times> rat" where
  \<comment> \<open>steps 1 to 3 up to \<open>best_file\<close> and \<open>best_avg_f1\<close>\<close>
  "best_row files =
     (if fold_score_files files = []
      then Inl (FileNotFoundError ''No fold-score CSV files found!'')
      else
        (case iteration_scores (fold_score_files files) files of
           Inl e \<Rightarrow> Inl e
         | Inr rows \<Rightarrow>
             (case idxmax (map snd rows) of
                None \<Rightarrow> Inl LibraryError
              | Some (i, best_avg_f1) \<Rightarrow> Inr (fst (rows ! i), best_avg_f1))))"

definition best_iteration :: "fs \<Rightarrow> error + string \<times> rat \<times> string" where
  \<comment> \<open>steps 1 to 3: \<open>(best_file, best_avg_f1, best_iter)\<close>\<close>
  "best_iteration files =
     (case best_row files of
        Inl e \<Rightarrow> Inl e
      | Inr (best_file, best_avg_f1) \<Rightarrow>
          (case search_iter best_file of
             None \<Rightarrow> Inl (ValueError (''Cannot extract iteration from '' @ best_file))
           | Some best_iter \<Rightarrow> Inr (best_file, best_avg_f1, best_iter)))"

subsection \<open>Step 4: copying the artifacts\<close>

text \<open>
  The state of steps 4 and 5: the files, and the calls of \<open>shutil.copy\<close> made so far, each
  as its source and destination.
\<close>

record state =
  files :: fs
  copies :: "(string \<times> string) list"

definition shutil_copy :: "string \<Rightarrow> string \<Rightarrow> state \<Rightarrow> error + state" where
  "shutil_copy src dst st =
     (case map_of (files st) src of
        None \<Rightarrow> Inl (FileNotFoundError src)
      | Some c \<Rightarrow> Inr \<lparr>files = write_file dst c (files st), copies = copies st @ [(src, dst)]\<rparr>)"

definition copy_if_exists :: "string \<Rightarrow> string \<Rightarrow> state \<Rightarrow> error + state" where
  \<comment> \<open>\<open>if os.path.exists(src): shutil.copy(src, dst)\<close>\<close>
  "copy_if_exists src dst st =
     (if path_exists src (files st) then shutil_copy src dst st else Inr st)"

definition new_fname :: "string \<Rightarrow> string \<Rightarrow> string" where
  \<comment> \<open>\<open>os.path.basename(f).replace(best_iter, "across_iterations")\<close>\<close>
  "new_fname best_iter f = replace best_iter ''across_iterations'' (basename f)"

fun copy_metrics :: "string \<Rightarrow> string list \<Rightarrow> state \<Rightarrow> error + state" where
  \<comment> \<open>the loop \<open>for f in metrics_files\<close>\<close>
  "copy_metrics best_iter [] st = Inr st"
| "copy_metrics best_iter (f # rest) st =
     (case shutil_copy f (path_join BASE (new_fname best_iter f)) st of
        Inl e \<Rightarrow> Inl e
      | Inr st' \<Rightarrow> copy_metrics best_iter rest st')"

definition txt_file :: "string \<Rightarrow> string" where
  "txt_file best_iter = path_join BASE (''stacker_best_model_'' @ best_iter @ ''.txt'')"

definition pkl_file :: "string \<Rightarrow> string" where
  "pkl_file best_iter = path_join BASE (''stacker_best_model_'' @ best_iter @ ''.pkl'')"

definition across_txt :: string where
  "across_txt = path_join BASE ''stacker_best_model_across_iterations.txt''"

definition across_pkl :: string where
  "across_pkl = path_join BASE ''stacker_best_model_across_iterations.pkl''"

definition metrics_files :: "string \<Rightarrow> fs \<Rightarrow> string list" where
  \<comment> \<open>\<open>glob.glob(os.path.join(BASE, f"stacker_binary_metrics_{best_iter}_*.csv"))\<close>\<close>
  "metrics_files best_iter fls = glob (''stacker_binary_metrics_'' @ best_iter @ ''_'') ''.csv'' fls"

definition copy_artifacts :: "string \<Rightarrow> state \<Rightarrow> error + state \<times> string list" where
  \<comment> \<open>step 4; the result holds \<open>metrics_files\<close>, which step 5 reads\<close>
  "copy_artifacts best_iter st =
     (case copy_if_exists (txt_file best_iter) across_txt st of
        Inl e \<Rightarrow> Inl e
      | Inr st1 \<Rightarrow>
          (case copy_if_exists (pkl_file best_iter) across_pkl st1 of
             Inl e \<Rightarrow> Inl e
           | Inr st2 \<Rightarrow>
               (let ms = metrics_files best_iter (files st2)
                in case copy_metrics best_iter ms st2 of
                     Inl e \<Rightarrow> Inl e
                   | Inr st3 \<Rightarrow> Inr (st3, ms))))"

subsection \<open>Step 5: the model card\<close>

definition output_model_card :: string where
  "output_model_card = path_join BASE ''best-stacker-model-across-iterations.md''"

definition model_card :: "(rat \<Rightarrow> string) \<Rightarrow> string \<Rightarrow> rat \<Rightarrow> string list \<Rightarrow> string list" where
  \<comment> \<open>the strings written to the card, one for each \<open>f.write\<close>. \<open>fmt4\<close> is the
      formatting \<open>{:.4f}\<close> of a float, which the Python runtime does.\<close>
  "model_card fmt4 best_iter best_avg_f1 ms =
     [''# Model Card: Best Stacking Meta-Learner Across Iterations\<newline>\<newline>'',
      ''**Best iteration:** `'' @ best_iter @ ''`\<newline>'',
      ''**Average Macro-F1:** '' @ fmt4 best_avg_f1 @ ''\<newline>\<newline>'',
      ''## Saved Artifacts\<newline>'',
      ''- `stacker_best_model_across_iterations.txt`\<newline>'',
      ''- `stacker_best_model_across_iterations.pkl`\<newline>'']
     @ map (\<lambda>csv_file. ''- `'' @ new_fname best_iter csv_file @ ''`\<newline>'') ms"

definition write_model_card :: "string list \<Rightarrow> state \<Rightarrow> state" where
  \<comment> \<open>\<open>open(output_model_card, "w")\<close> and the writes\<close>
  "write_model_card lines st =
     st\<lparr>files := write_file output_model_card (Blob (concat lines)) (files st)\<rparr>"

subsection \<open>The script\<close>

definition selector :: "(rat \<Rightarrow> string) \<Rightarrow> fs \<Rightarrow> error + state" where
  "selector fmt4 fls =
     (case best_iteration fls of
        Inl e \<Rightarrow> Inl e
      | Inr (best_file, best_avg_f1, best_iter) \<Rightarrow>
          (case copy_artifacts best_iter \<lparr>files = fls, copies = []\<rparr> of
             Inl e \<Rightarrow> Inl e
           | Inr (st, ms) \<Rightarrow>
               Inr (write_model_card (model_card fmt4 best_iter best_avg_f1 ms) st)))"

subsection \<open>Vocabulary of the properties\<close>

definition score :: "fs \<Rightarrow> string \<Rightarrow> rat option" where
  \<comment> \<open>the mean Macro-F1 of a fold-score file, when it has one\<close>
  "score fls file = (case read_macro_f1 file fls of Inl e \<Rightarrow> None | Inr col \<Rightarrow> mean col)"

definition readable :: "fs \<Rightarrow> string \<Rightarrow> bool" where
  "readable fls file = (case read_macro_f1 file fls of Inl e \<Rightarrow> False | Inr col \<Rightarrow> True)"

definition first_max :: "rat option list \<Rightarrow> (nat \<times> rat) option \<Rightarrow> bool" where
  \<comment> \<open>\<open>best\<close> is the first position of the greatest value of \<open>xs\<close> and that value,
      or \<open>None\<close> when all of \<open>xs\<close> is NaN\<close>
  "first_max xs best =
     (case best of
        None \<Rightarrow> (\<forall>x \<in> set xs. x = None)
      | Some (j, b) \<Rightarrow>
          j < length xs \<and> xs ! j = Some b
          \<and> (\<forall>k < length xs. \<forall>w. xs ! k = Some w \<longrightarrow> w \<le> b)
          \<and> (\<forall>k < j. \<forall>w. xs ! k = Some w \<longrightarrow> w < b))"

definition is_tag :: "string \<Rightarrow> bool" where
  \<comment> \<open>an iteration tag: \<open>iter\<close> and one digit or more\<close>
  "is_tag t = (startswith ''iter'' t \<and> drop 4 t \<noteq> [] \<and> list_all isdigit09 (drop 4 t))"

definition belongs_to :: "string \<Rightarrow> string \<Rightarrow> bool" where
  \<comment> \<open>the path is one of the files of the iteration \<open>t\<close>, by the naming convention\<close>
  "belongs_to t p =
     (p = BASE @ ''stacker_best_model_folds_'' @ t @ ''.csv''
      \<or> p = BASE @ ''stacker_best_model_'' @ t @ ''.txt''
      \<or> p = BASE @ ''stacker_best_model_'' @ t @ ''.pkl''
      \<or> glob_match (''stacker_binary_metrics_'' @ t @ ''_'') ''.csv'' p)"

definition example_dir :: fs where
  \<comment> \<open>a directory after three iterations; iterations 1 and 3 tie\<close>
  "example_dir =
     [(''./stacker_best_model_folds_iter3.csv'', Table [Some (4/5), Some (3/5)]),
      (''./stacker_best_model_folds_iter1.csv'', Table [Some (7/10), None, Some (7/10)]),
      (''./stacker_best_model_folds_iter2.csv'', Table [Some (1/2), Some (3/5)]),
      (''./stacker_best_model_iter1.txt'', Blob ''params 1''),
      (''./stacker_best_model_iter2.txt'', Blob ''params 2''),
      (''./stacker_best_model_iter2.pkl'', Blob ''pickle 2''),
      (''./stacker_binary_metrics_iter1_test.csv'', Blob ''m1 test''),
      (''./stacker_binary_metrics_iter2_test.csv'', Blob ''m2 test''),
      (''./stacker_binary_metrics_iter1_val.csv'', Blob ''m1 val''),
      (''./stacker_binary_metrics_iter10_val.csv'', Blob ''m10 val'')]"

section \<open>Resource logger (resource_logger.py)\<close>

text \<open>
  What one use of the context manager measures: the two readings of \<open>time.time()\<close>,
  \<open>psutil.cpu_percent\<close>, \<open>torch.cuda.is_available()\<close> and the used bytes of
  \<open>shutil.disk_usage("/")\<close>. The numbers are exact rationals.
\<close>

record sample =
  t_start :: rat
  t_end :: rat
  cpu_pct :: rat
  cuda_available :: bool
  used :: nat

text \<open>
  The log file, when it exists, as the rows that \<open>csv.writer\<close> wrote to it, one list of
  fields each; \<open>None\<close> when there is no file at \<open>LOG_PATH\<close>.
\<close>

type_synonym log_file = "string list list option"

definition header :: "string list" where
  "header = [''tag'', ''elapsed_hr'', ''gpu_hrs'', ''cpu_pct'', ''disk_used_gb'']"

definition log_row :: "(nat \<Rightarrow> rat \<Rightarrow> string) \<Rightarrow> string \<Rightarrow> sample \<Rightarrow> string list" where
  \<comment> \<open>\<open>fmt d x\<close> is the formatting \<open>{x:.df}\<close> of a float, which the Python runtime
      does\<close>
  "log_row fmt tag s =
     (let elapsed_hr = (t_end s - t_start s) / 3600;
          gpu_hrs = (if cuda_available s then elapsed_hr else 0);
          used_gb = of_nat (used s) / 10 ^ 9
      in [tag, fmt 3 elapsed_hr, fmt 3 gpu_hrs, fmt 1 (cpu_pct s), fmt 1 used_gb])"

definition ResourceLogger :: "(nat \<Rightarrow> rat \<Rightarrow> string) \<Rightarrow> string \<Rightarrow> sample \<Rightarrow> log_file \<Rightarrow> log_file" where
  \<comment> \<open>one \<open>with ResourceLogger(tag):\<close> whose block ran to its end: what follows the
      \<open>yield\<close>. The file is opened for appending, which creates it.\<close>
  "ResourceLogger fmt tag s logf =
     (let row = log_row fmt tag s;
          write_header = (logf = None);
          old = (case logf of None \<Rightarrow> [] | Some rows \<Rightarrow> rows)
      in Some (old @ (if write_header then [header] else []) @ [row]))"

fun run_logged :: "(nat \<Rightarrow> rat \<Rightarrow> string) \<Rightarrow> (string \<times> sample) list \<Rightarrow> log_file \<Rightarrow> log_file" where
  \<comment> \<open>invocations one after the other\<close>
  "run_logged fmt [] logf = logf"
| "run_logged fmt ((tag, s) # rest) logf = run_logged fmt rest (ResourceLogger fmt tag s logf)"

section \<open>Lemmas on the note aggregator\<close>

subsection \<open>The merge loop, piece by piece\<close>

lemma buffer_of_snoc: "buffer_of (run @ [n]) = buffer_of run @ '' '' @ n"
  by (simp add: buffer_of_def)

lemma buffer_of_Nil_iff: "buffer_of run = [] \<longleftrightarrow> run = []"
  by (cases run) (simp_all add: buffer_of_def)

lemma merge_loop_pieces:
  "(case merge_loop m combined (buffer_of run) ns of
      (c, b) \<Rightarrow> if b \<noteq> [] then c @ [strip b] else c)
   = combined @ map render (pieces m run ns)"
proof (induction ns arbitrary: combined run)
  case Nil
  then show ?case by (simp add: buffer_of_Nil_iff)
next
  case (Cons n ns)
  show ?case
  proof (cases "length n < m")
    case True
    then show ?thesis
      using Cons.IH [of combined "run @ [n]"] by (simp add: buffer_of_snoc)
  next
    case False
    then show ?thesis
      using Cons.IH [of "combined @ [strip (buffer_of run)] @ [n]" "[]"]
        Cons.IH [of "combined @ [n]" "[]"]
      by (simp add: buffer_of_Nil_iff) (simp add: buffer_of_def)
  qed
qed

lemma combine_pieces: "combine m note_list = map render (pieces m [] note_list)"
  using merge_loop_pieces [of m "[]" "[]" note_list] by (simp add: combine_def buffer_of_def)

lemma notes_of_pieces: "concat (map notes_of (pieces m run ns)) = run @ ns"
  by (induction ns arbitrary: run) auto

lemma pieces_ok: "list_all (\<lambda>n. length n < m) run \<Longrightarrow> list_all (piece_ok m) (pieces m run ns)"
  by (induction ns arbitrary: run) auto

lemma no_adjacent_flushes_pieces: "no_adjacent_flushes (pieces m run ns)"
  by (induction ns arbitrary: run) auto

subsection \<open>Notes found again in the output\<close>

lemma occurs_in_order_Cons:
  "occurs_in_order (n # ns) s \<longleftrightarrow> (\<exists>p r. s = p @ n @ r \<and> occurs_in_order ns r)"
proof
  assume "occurs_in_order (n # ns) s"
  then obtain i where i: "i \<le> length s" "take (length n) (drop i s) = n"
    "occurs_in_order ns (drop (i + length n) s)" by auto
  have "s = take i s @ (take (length n) (drop i s) @ drop (length n) (drop i s))"
    unfolding append_take_drop_id by simp
  with i have "s = take i s @ n @ drop (i + length n) s"
    by (simp add: add.commute)
  with i(3) show "\<exists>p r. s = p @ n @ r \<and> occurs_in_order ns r" by blast
next
  assume "\<exists>p r. s = p @ n @ r \<and> occurs_in_order ns r"
  then obtain p r where s: "s = p @ n @ r" and r: "occurs_in_order ns r" by blast
  have "length p \<in> {0..length s}" by (simp add: s)
  moreover have "take (length n) (drop (length p) s) = n" by (simp add: s)
  moreover have "occurs_in_order ns (drop (length p + length n) s)"
    using r by (simp add: s)
  ultimately show "occurs_in_order (n # ns) s"
    unfolding occurs_in_order.simps by blast
qed

lemma occurs_in_order_prepend: "occurs_in_order ns s \<Longrightarrow> occurs_in_order ns (p @ s)"
proof (cases ns)
  case Nil
  then show ?thesis by simp
next
  case (Cons n ns')
  assume "occurs_in_order ns s"
  then obtain q r where "s = q @ n @ r" "occurs_in_order ns' r"
    unfolding Cons occurs_in_order_Cons by blast
  then have "p @ s = (p @ q) @ n @ r \<and> occurs_in_order ns' r" by simp
  then show ?thesis unfolding Cons occurs_in_order_Cons by blast
qed

lemma occurs_in_order_append:
  "occurs_in_order xs s \<Longrightarrow> occurs_in_order ys t \<Longrightarrow> occurs_in_order (xs @ ys) (s @ t)"
proof (induction xs arbitrary: s)
  case Nil
  then show ?case by (simp add: occurs_in_order_prepend)
next
  case (Cons x xs)
  from Cons.prems(1) obtain p r where s: "s = p @ x @ r" and r: "occurs_in_order xs r"
    unfolding occurs_in_order_Cons by blast
  have "occurs_in_order (xs @ ys) (r @ t)" using Cons.IH [OF r Cons.prems(2)] .
  moreover have "s @ t = p @ x @ (r @ t)" by (simp add: s)
  ultimately show ?case
    unfolding append_Cons occurs_in_order_Cons by blast
qed

lemma occurs_in_order_Nil_string: "occurs_in_order ns [] \<longleftrightarrow> (\<forall>n \<in> set ns. n = [])"
  by (induction ns) auto

lemma strip_lr: "strip s = rstrip (dropWhile isspace s)"
  by (simp add: strip_def rstrip_def)

lemma rstrip_append:
  "rstrip (x @ r) = (if rstrip r = [] then rstrip x else x @ rstrip r)"
  by (auto simp: rstrip_def dropWhile_append)

lemma rstrip_stripped: "stripped n \<Longrightarrow> rstrip n = n"
  by (metis dropWhile_eq_self_iff hd_rev rev.simps(1) rev_rev_ident
    rstrip_def stripped_def)

lemma stripped_strip: "stripped (strip s)"
proof (cases "strip s = []")
  case True
  then show ?thesis by (simp add: stripped_def)
next
  case False
  define t where "t = dropWhile isspace s"
  define v where "v = dropWhile isspace (rev t)"
  have sv: "strip s = rev v" by (simp add: strip_def t_def v_def)
  with False have v: "v \<noteq> []" by simp
  then have t: "t \<noteq> []" by (auto simp: v_def)
  have "\<not> isspace (hd v)" using v unfolding v_def by (rule hd_dropWhile)
  then have l: "\<not> isspace (last (rev v))" using v by (simp add: last_rev)
  have "\<not> isspace (hd t)" using t unfolding t_def by (rule hd_dropWhile)
  moreover have "last v = hd t"
    using v t \<open>\<not> isspace (hd t)\<close> unfolding v_def
    by (metis dropWhile_last last_in_set last_rev rev_is_Nil_conv)
  ultimately have "\<not> isspace (hd (rev v))" using v by (simp add: hd_rev)
  with l show ?thesis by (simp add: stripped_def sv)
qed

lemma strip_stripped: "stripped n \<Longrightarrow> strip n = n"
  by (metis dropWhile_eq_self_iff rstrip_stripped strip_lr stripped_def)

lemma occurs_in_order_buffer_of: "occurs_in_order run (buffer_of run)"
proof (induction run)
  case Nil
  then show ?case by simp
next
  case (Cons n run)
  have "buffer_of (n # run) = '' '' @ n @ buffer_of run" by (simp add: buffer_of_def)
  with Cons show ?case unfolding occurs_in_order_Cons by blast
qed

lemma occurs_in_order_lstrip_buffer:
  "\<forall>n \<in> set run. stripped n \<Longrightarrow> occurs_in_order run (dropWhile isspace (buffer_of run))"
proof (induction run)
  case Nil
  then show ?case by simp
next
  case (Cons n run)
  have sp: "isspace CHR '' ''" by (simp add: isspace_def)
  have b: "dropWhile isspace (buffer_of (n # run)) = dropWhile isspace (n @ buffer_of run)"
    using sp by (simp add: buffer_of_def)
  show ?case
  proof (cases "n = []")
    case True
    have "occurs_in_order run (dropWhile isspace (buffer_of run))" using Cons by simp
    then have "\<exists>p r. dropWhile isspace (buffer_of run) = p @ [] @ r \<and> occurs_in_order run r"
      by (metis append_Nil)
    moreover have "dropWhile isspace (buffer_of (n # run)) = dropWhile isspace (buffer_of run)"
      using b by (simp add: True)
    ultimately show ?thesis unfolding True occurs_in_order_Cons by simp
  next
    case False
    with Cons.prems have "\<not> isspace (hd n)" by (simp add: stripped_def)
    with False have "dropWhile isspace (n @ buffer_of run) = n @ buffer_of run"
      by (cases n) simp_all
    moreover have "occurs_in_order run (buffer_of run)" by (rule occurs_in_order_buffer_of)
    ultimately show ?thesis unfolding b occurs_in_order_Cons by (metis append_Nil)
  qed
qed

lemma occurs_in_order_rstrip:
  "\<forall>n \<in> set ns. stripped n \<Longrightarrow> occurs_in_order ns s \<Longrightarrow> occurs_in_order ns (rstrip s)"
proof (induction ns arbitrary: s)
  case Nil
  then show ?case by simp
next
  case (Cons n ns)
  from Cons.prems(2) obtain p r where s: "s = p @ n @ r" and r: "occurs_in_order ns r"
    unfolding occurs_in_order_Cons by blast
  have ih: "occurs_in_order ns (rstrip r)" using Cons.IH [OF _ r] Cons.prems(1) by simp
  show ?case
  proof (cases "rstrip r = []")
    case True
    with ih have e: "occurs_in_order ns []" by simp
    have "rstrip s = rstrip (p @ n)" using True by (simp add: s rstrip_append)
    also have "\<dots> = (if n = [] then rstrip p else p @ n)"
      using Cons.prems(1) by (auto simp: rstrip_append rstrip_stripped)
    finally have "\<exists>q. rstrip s = q @ n @ []" by auto
    with e show ?thesis unfolding occurs_in_order_Cons by blast
  next
    case False
    then have "rstrip s = p @ n @ rstrip r" by (simp add: s rstrip_append)
    with ih show ?thesis unfolding occurs_in_order_Cons by blast
  qed
qed

lemma occurs_in_order_flush:
  "\<forall>n \<in> set run. stripped n \<Longrightarrow> occurs_in_order run (strip (buffer_of run))"
  unfolding strip_lr by (intro occurs_in_order_rstrip occurs_in_order_lstrip_buffer)

lemma occurs_in_order_render:
  "\<forall>n \<in> set (notes_of p). stripped n \<Longrightarrow> occurs_in_order (notes_of p) (render p)"
proof (cases p)
  case (Long n)
  have "n = [] @ n @ [] \<and> occurs_in_order [] []" by simp
  then show ?thesis unfolding Long notes_of.simps render.simps occurs_in_order_Cons by blast
next
  case (Flush run)
  assume "\<forall>n \<in> set (notes_of p). stripped n"
  then show ?thesis unfolding Flush by (simp add: occurs_in_order_flush)
qed

lemma occurs_in_order_pieces:
  "\<forall>n \<in> set (concat (map notes_of ps)). stripped n \<Longrightarrow>
   occurs_in_order (concat (map notes_of ps)) (concat (map render ps))"
proof (induction ps)
  case Nil
  then show ?case by simp
next
  case (Cons p ps)
  have "occurs_in_order (notes_of p) (render p)"
    using Cons.prems by (intro occurs_in_order_render) simp
  moreover have "occurs_in_order (concat (map notes_of ps)) (concat (map render ps))"
    using Cons by simp
  ultimately show ?case by (simp add: occurs_in_order_append)
qed

lemma occurs_in_order_combine:
  assumes "\<forall>n \<in> set note_list. stripped n"
  shows "occurs_in_order note_list (concat (combine m note_list))"
  using occurs_in_order_pieces [of "pieces m [] note_list"] assms
  by (simp add: notes_of_pieces combine_pieces)

subsection \<open>The last flush\<close>

lemma pieces_all_short:
  "list_all (\<lambda>n. length n < m) tail \<Longrightarrow>
   pieces m run tail = (if run @ tail = [] then [] else [Flush (run @ tail)])"
  by (induction tail arbitrary: run) auto

lemma pieces_ends_with_flush:
  "list_all (\<lambda>n. length n < m) tail \<Longrightarrow> tail \<noteq> [] \<Longrightarrow> pre \<noteq> [] \<Longrightarrow>
   \<not> length (last pre) < m \<Longrightarrow> \<exists>ps. pieces m run (pre @ tail) = ps @ [Flush tail]"
proof (induction pre arbitrary: run)
  case Nil
  then show ?case by simp
next
  case (Cons x pre)
  show ?case
  proof (cases "pre = []")
    case True
    with Cons.prems show ?thesis by (simp add: pieces_all_short)
  next
    case False
    with Cons.prems have l: "\<not> length (last pre) < m" by simp
    show ?thesis
    proof (cases "length x < m")
      case True
      with Cons.IH [OF Cons.prems(1,2) False l, of "run @ [x]"] show ?thesis by simp
    next
      case F: False
      from Cons.IH [OF Cons.prems(1,2) False l, of "[]"]
      obtain ps where "pieces m [] (pre @ tail) = ps @ [Flush tail]" by blast
      then have "pieces m run ((x # pre) @ tail)
        = ((if run = [] then [] else [Flush run]) @ Long x # ps) @ [Flush tail]"
        using F by simp
      then show ?thesis by blast
    qed
  qed
qed

lemma pieces_trailing_short:
  assumes "trailing_short m note_list \<noteq> []"
  shows "\<exists>ps. pieces m [] note_list = ps @ [Flush (trailing_short m note_list)]"
proof -
  define short where "short = (\<lambda>n :: string. length n < m)"
  define pre where "pre = rev (dropWhile short (rev note_list))"
  define tail where "tail = trailing_short m note_list"
  have split: "note_list = pre @ tail"
    unfolding pre_def tail_def trailing_short_def short_def
    by (metis rev_append rev_rev_ident takeWhile_dropWhile_id)
  have tail: "list_all short tail"
    unfolding tail_def trailing_short_def short_def list_all_iff
    by (auto dest: set_takeWhileD)
  show ?thesis
  proof (cases "pre = []")
    case True
    have "tail \<noteq> []" using assms by (simp add: tail_def)
    with tail have "pieces m [] (pre @ tail) = [] @ [Flush tail]"
      unfolding True short_def by (simp add: pieces_all_short)
    then have "\<exists>ps. pieces m [] (pre @ tail) = ps @ [Flush tail]" by blast
    then show ?thesis unfolding tail_def [symmetric] by (subst split)
  next
    case False
    then have "dropWhile short (rev note_list) \<noteq> []" by (simp add: pre_def)
    then have "\<not> short (hd (dropWhile short (rev note_list)))" by (rule hd_dropWhile)
    with False have "\<not> short (last pre)" by (simp add: pre_def last_rev)
    moreover have "tail \<noteq> []" using assms by (simp add: tail_def)
    ultimately have "\<exists>ps. pieces m [] (pre @ tail) = ps @ [Flush tail]"
      using pieces_ends_with_flush [of m tail pre "[]"] tail False
      unfolding short_def by simp
    then show ?thesis unfolding tail_def [symmetric] by (subst split)
  qed
qed

lemma last_combine:
  assumes "trailing_short m note_list \<noteq> []"
  shows "combine m note_list \<noteq> [] \<and>
    last (combine m note_list) = strip (buffer_of (trailing_short m note_list))"
proof -
  from pieces_trailing_short [OF assms] obtain ps
    where "pieces m [] note_list = ps @ [Flush (trailing_short m note_list)]" by blast
  then show ?thesis by (simp add: combine_pieces)
qed

lemma set_trailing_short: "set (trailing_short m note_list) \<subseteq> set note_list"
  unfolding trailing_short_def by (auto dest: set_takeWhileD)

subsection \<open>Grouping and sorting\<close>

lemma map_of_dd_update:
  "map_of (dd_update k dflt f d)
     = (map_of d)(k \<mapsto> f (case map_of d k of None \<Rightarrow> dflt | Some v \<Rightarrow> v))"
  by (induction d) (auto simp: fun_eq_iff)

lemma keys_dd_update:
  "map fst (dd_update k dflt f d) = (if k \<in> fst ` set d then map fst d else map fst d @ [k])"
proof (induction d)
  case Nil
  then show ?case by simp
next
  case (Cons kv d)
  obtain k' v where kv: "kv = (k', v)" by (cases kv)
  show ?case
  proof (cases "k' = k")
    case True
    then show ?thesis by (simp add: kv)
  next
    case False
    then have "k \<in> fst ` set (kv # d) \<longleftrightarrow> k \<in> fst ` set d" by (auto simp: kv)
    with False Cons show ?thesis by (simp add: kv)
  qed
qed

lemma distinct_dd_update:
  "distinct (map fst d) \<Longrightarrow> distinct (map fst (dd_update k dflt f d))"
  by (auto simp: keys_dd_update)

lemma set_dd_update:
  "(k', v') \<in> set (dd_update k dflt f d) \<Longrightarrow>
   (k', v') \<in> set d \<or> (k' = k \<and> (v' = f dflt \<or> (\<exists>v. (k, v) \<in> set d \<and> v' = f v)))"
  by (induction d) (auto split: if_splits)

lemma lookup2_group_row:
  "lookup2 (group_row g r) s h =
     (if s = subject_id r \<and> h = hadm_id r then lookup2 g s h @ [note_text r] else lookup2 g s h)"
  by (auto simp: lookup2_def group_row_def map_of_dd_update split: option.splits)

lemma dist2_group_row: "dist2 g \<Longrightarrow> dist2 (group_row g r)"
  unfolding dist2_def group_row_def
  by (auto simp: distinct_dd_update dest!: set_dd_update)

lemma notes_grouped_snoc: "notes_grouped (df @ [r]) = group_row (notes_grouped df) r"
  by (simp add: notes_grouped_def)

lemma lookup2_notes_grouped:
  "lookup2 (notes_grouped df) s h = map note_text (admission_rows df s h)"
  by (induction df rule: rev_induct)
    (auto simp: notes_grouped_snoc lookup2_group_row admission_rows_def,
     simp add: notes_grouped_def lookup2_def)

lemma dist2_notes_grouped: "dist2 (notes_grouped df)"
  by (induction df rule: rev_induct)
    (auto simp: notes_grouped_snoc dist2_group_row, simp add: notes_grouped_def dist2_def)

lemma notes_grouped_entry:
  assumes "(s, hadm_dict) \<in> set (notes_grouped df)" "(h, note_list) \<in> set hadm_dict"
  shows "note_list = map note_text (admission_rows df s h)"
proof -
  have d: "dist2 (notes_grouped df)" by (rule dist2_notes_grouped)
  with assms(1) have "map_of (notes_grouped df) s = Some hadm_dict"
    by (simp add: dist2_def)
  moreover from d assms have "map_of hadm_dict h = Some note_list"
    by (auto simp: dist2_def)
  ultimately have "lookup2 (notes_grouped df) s h = note_list" by (simp add: lookup2_def)
  then show ?thesis by (simp add: lookup2_notes_grouped)
qed

lemma sorted_admission_rows:
  "sorted (map (\<lambda>r. time_key (charttime r)) (admission_rows (sort_values df) s h))"
proof -
  define key where "key = (\<lambda>r :: note_row. (subject_id r, hadm_id r, time_key (charttime r)))"
  have "sorted (map key (sort_values df))" unfolding sort_values_def key_def by simp
  then have "sorted_wrt (\<lambda>a b. key a \<le> key b) (sort_values df)" by (simp add: sorted_map)
  then have "sorted_wrt (\<lambda>a b. key a \<le> key b) (admission_rows (sort_values df) s h)"
    unfolding admission_rows_def by (rule sorted_wrt_filter)
  then have "sorted_wrt (\<lambda>a b. time_key (charttime a) \<le> time_key (charttime b))
    (admission_rows (sort_values df) s h)"
    by (rule sorted_wrt_mono_rel [rotated]) (auto simp: admission_rows_def key_def)
  then show ?thesis by (simp add: sorted_map)
qed

lemma sorted_valid_times:
  "sorted (map (\<lambda>r :: note_row. time_key (charttime r)) rs) \<Longrightarrow> \<forall>r \<in> set rs. charttime r \<noteq> None \<Longrightarrow>
   \<exists>ts. map charttime rs = map Some ts \<and> sorted ts"
proof (induction rs)
  case Nil
  then show ?case by simp
next
  case (Cons r rs)
  then obtain ts where ts: "map charttime rs = map Some ts" "sorted ts" by auto
  from Cons.prems obtain t where t: "charttime r = Some t" by auto
  have "\<forall>u \<in> set ts. t \<le> u"
  proof
    fix u assume "u \<in> set ts"
    then have "Some u \<in> set (map charttime rs)" by (simp add: ts)
    then obtain r' where "r' \<in> set rs" "charttime r' = Some u" by auto
    with Cons.prems(1) t show "t \<le> u" by (auto simp: time_key_def)
  qed
  with ts t have "map charttime (r # rs) = map Some (t # ts) \<and> sorted (t # ts)" by simp
  then show ?case by blast
qed

section \<open>Lemmas on the selector\<close>

subsection \<open>The first maximum\<close>

lemma first_max_snoc:
  "first_max pre best \<Longrightarrow>
   first_max (pre @ [x])
     (case x of None \<Rightarrow> best
      | Some v \<Rightarrow> (case best of None \<Rightarrow> Some (length pre, v)
                    | Some (j, b) \<Rightarrow> if b < v then Some (length pre, v) else best))"
  unfolding first_max_def
  by (auto simp: nth_append less_Suc_eq all_set_conv_all_nth split: option.splits prod.splits if_splits)

lemma first_max_idxmax_from:
  "first_max pre best \<Longrightarrow> first_max (pre @ xs) (idxmax_from (length pre) best xs)"
proof (induction xs arbitrary: pre best)
  case Nil
  then show ?case by simp
next
  case (Cons x xs)
  from Cons.IH [OF first_max_snoc [OF Cons.prems, of x]] show ?case by simp
qed

lemma first_max_idxmax: "first_max xs (idxmax xs)"
  using first_max_idxmax_from [of "[]" None xs] by (simp add: idxmax_def first_max_def)

lemma iteration_scores_Inr:
  "iteration_scores fl fls = Inr rows \<Longrightarrow>
   map fst rows = fl \<and> map snd rows = map (score fls) fl \<and> (\<forall>f \<in> set fl. readable fls f)"
  by (induction fl arbitrary: rows)
    (auto simp: score_def readable_def split: sum.splits)


lemma iteration_scores_readable:
  "\<forall>f \<in> set fl. readable fls f \<Longrightarrow> \<exists>rows. iteration_scores fl fls = Inr rows"
  by (induction fl) (auto simp: readable_def split: sum.splits)

subsection \<open>The best row\<close>

lemma map_of_write_file: "map_of (write_file p c fls) = (map_of fls)(p \<mapsto> c)"
  by (induction fls) (auto simp: fun_eq_iff)

lemma glob_exists: "f \<in> set (glob pre suf fls) \<Longrightarrow> map_of fls f \<noteq> None"
  by (auto simp: glob_def map_of_eq_None_iff)



lemma best_row_characterisation:
  assumes "best_row fls = Inr (best_file, avg)"
  shows "\<exists>i < length (fold_score_files fls).
      fold_score_files fls ! i = best_file
      \<and> score fls best_file = Some avg
      \<and> (\<forall>k < length (fold_score_files fls). \<forall>w.
            score fls (fold_score_files fls ! k) = Some w \<longrightarrow> w \<le> avg)
      \<and> (\<forall>k < i. \<forall>w. score fls (fold_score_files fls ! k) = Some w \<longrightarrow> w < avg)"
proof -
  let ?fl = "fold_score_files fls"
  from assms obtain rows i where rows: "iteration_scores ?fl fls = Inr rows"
    and im: "idxmax (map snd rows) = Some (i, avg)" and bf: "best_file = fst (rows ! i)"
    by (auto simp: best_row_def split: if_splits sum.splits option.splits)
  from iteration_scores_Inr [OF rows] have f: "map fst rows = ?fl"
    and s: "map snd rows = map (score fls) ?fl" by simp_all
  have len: "length rows = length ?fl" using f by (metis length_map)
  from first_max_idxmax [of "map snd rows"] im
  have fm: "i < length ?fl" "map (score fls) ?fl ! i = Some avg"
    "\<forall>k < length ?fl. \<forall>w. map (score fls) ?fl ! k = Some w \<longrightarrow> w \<le> avg"
    "\<forall>k < i. \<forall>w. map (score fls) ?fl ! k = Some w \<longrightarrow> w < avg"
    unfolding first_max_def s by (simp_all add: len)
  have bf': "?fl ! i = best_file"
    using fm(1) len f bf by (metis nth_map)
  have "score fls best_file = Some avg" using fm(1,2) bf' by simp
  moreover have "\<forall>k < length ?fl. \<forall>w. score fls (?fl ! k) = Some w \<longrightarrow> w \<le> avg"
    using fm(3) by simp
  moreover have "\<forall>k < i. \<forall>w. score fls (?fl ! k) = Some w \<longrightarrow> w < avg"
    using fm(4) fm(1) by simp
  ultimately show ?thesis using fm(1) bf' by blast
qed

lemma best_row_exists:
  assumes "\<forall>f \<in> set (fold_score_files fls). readable fls f"
    and "\<exists>f \<in> set (fold_score_files fls). score fls f \<noteq> None"
  shows "\<exists>best_file avg. best_row fls = Inr (best_file, avg)"
proof -
  let ?fl = "fold_score_files fls"
  from assms(2) have ne: "?fl \<noteq> []" by auto
  from iteration_scores_readable [OF assms(1)] obtain rows
    where rows: "iteration_scores ?fl fls = Inr rows" by blast
  from iteration_scores_Inr [OF rows] have s: "map snd rows = map (score fls) ?fl" by simp
  have "idxmax (map snd rows) \<noteq> None"
  proof
    assume "idxmax (map snd rows) = None"
    with first_max_idxmax [of "map snd rows"] have "\<forall>x \<in> set (map snd rows). x = None"
      by (simp add: first_max_def)
    with assms(2) show False unfolding s by auto
  qed
  then obtain i avg where "idxmax (map snd rows) = Some (i, avg)" by auto
  with rows ne show ?thesis by (simp add: best_row_def)
qed







subsection \<open>Copies never fail\<close>

lemma shutil_copy_ok:
  "map_of (files st) src \<noteq> None \<Longrightarrow> \<exists>st'. shutil_copy src dst st = Inr st'"
  by (auto simp: shutil_copy_def)

lemma shutil_copy_Inr:
  "shutil_copy src dst st = Inr st' \<Longrightarrow>
   \<exists>c. map_of (files st) src = Some c
     \<and> files st' = write_file dst c (files st) \<and> copies st' = copies st @ [(src, dst)]"
  by (auto simp: shutil_copy_def split: option.splits)

lemma copy_if_exists_ok: "\<exists>st'. copy_if_exists src dst st = Inr st'"
  using shutil_copy_ok [of st src dst] by (auto simp: copy_if_exists_def path_exists_def)

lemma copy_metrics_ok:
  "\<forall>f \<in> set ms. map_of (files st) f \<noteq> None \<Longrightarrow> \<exists>st'. copy_metrics t ms st = Inr st'"
proof (induction ms arbitrary: st)
  case Nil
  then show ?case by simp
next
  case (Cons f ms)
  have "map_of (files st) f \<noteq> None" using Cons.prems by simp
  from shutil_copy_ok [OF this] obtain st1
    where st1: "shutil_copy f (path_join BASE (new_fname t f)) st = Inr st1" by blast
  from shutil_copy_Inr [OF st1] have "\<forall>g \<in> set ms. map_of (files st1) g \<noteq> None"
    using Cons.prems by (auto simp: map_of_write_file)
  from Cons.IH [OF this] st1 show ?case by simp
qed

lemma copy_artifacts_ok: "\<exists>st' ms. copy_artifacts t st = Inr (st', ms)"
proof -
  obtain st1 where st1: "copy_if_exists (txt_file t) across_txt st = Inr st1"
    using copy_if_exists_ok by blast
  obtain st2 where st2: "copy_if_exists (pkl_file t) across_pkl st1 = Inr st2"
    using copy_if_exists_ok by blast
  have "\<forall>f \<in> set (metrics_files t (files st2)). map_of (files st2) f \<noteq> None"
    unfolding metrics_files_def by (auto dest: glob_exists)
  from copy_metrics_ok [OF this] obtain st3
    where "copy_metrics t (metrics_files t (files st2)) st2 = Inr st3" by blast
  with st1 st2 show ?thesis by (simp add: copy_artifacts_def)
qed




section \<open>Lemmas on the copy step\<close>

subsection \<open>Prefixes, tags and names\<close>

lemma startswith_Nil [simp]: "startswith [] s"
  by (simp add: startswith_def)

lemma startswith_Cons_Nil [simp]: "\<not> startswith (a # p) []"
  by (simp add: startswith_def)

lemma startswith_Cons_Cons [simp]: "startswith (a # p) (c # s) \<longleftrightarrow> a = c \<and> startswith p s"
  by (auto simp: startswith_def)

lemma startswith_append_same [simp]: "startswith (p @ q) (p @ s) \<longleftrightarrow> startswith q s"
  by (induction p) simp_all

lemma startswith_same [simp]: "startswith p (p @ s)"
  using startswith_append_same [of p "[]" s] by simp

lemma startswith_iff: "startswith p s \<longleftrightarrow> (\<exists>r. s = p @ r)"
proof
  assume "startswith p s"
  then have "s = p @ drop (length p) s" unfolding startswith_def
    using append_take_drop_id [of "length p" s] by simp
  then show "\<exists>r. s = p @ r" ..
next
  assume "\<exists>r. s = p @ r"
  then show "startswith p s" by auto
qed

lemma is_tag_iff:
  "is_tag t \<longleftrightarrow> (\<exists>ds. t = ''iter'' @ ds \<and> ds \<noteq> [] \<and> list_all isdigit09 ds)"
proof
  assume "is_tag t"
  then have 1: "take (length ''iter'') t = ''iter''" and 2: "drop 4 t \<noteq> []"
    and 3: "list_all isdigit09 (drop 4 t)"
    unfolding is_tag_def startswith_def by blast+
  have "take 4 t = ''iter''" using 1 by (simp add: eval_nat_numeral)
  with 2 3 have "take 4 t = ''iter''" "drop 4 t \<noteq> []" "list_all isdigit09 (drop 4 t)"
    by blast+
  then have "t = ''iter'' @ drop 4 t \<and> drop 4 t \<noteq> [] \<and> list_all isdigit09 (drop 4 t)"
    using append_take_drop_id [of 4 t] by simp
  then show "\<exists>ds. t = ''iter'' @ ds \<and> ds \<noteq> [] \<and> list_all isdigit09 ds" by blast
next
  assume "\<exists>ds. t = ''iter'' @ ds \<and> ds \<noteq> [] \<and> list_all isdigit09 ds"
  then show "is_tag t" by (auto simp: is_tag_def)
qed

lemma replace_tag_after_prefix:
  "replace (''iter'' @ ds) new (''stacker_binary_metrics_'' @ (''iter'' @ ds) @ rest)
     = ''stacker_binary_metrics_'' @ new @ replace (''iter'' @ ds) new rest"
  by simp

lemma basename_BASE:
  assumes "CHR ''/'' \<notin> set name"
  shows "basename (BASE @ name) = name"
proof -
  have "takeWhile (\<lambda>c. c \<noteq> CHR ''/'') (rev name @ ''/.'')
      = rev name @ takeWhile (\<lambda>c. c \<noteq> CHR ''/'') ''/.''"
    by (rule takeWhile_append2) (use assms in auto)
  also have "\<dots> = rev name" by simp
  finally have "takeWhile (\<lambda>c. c \<noteq> CHR ''/'') (rev (BASE @ name)) = rev name"
    by (simp add: BASE_def)
  then show ?thesis unfolding basename_def by simp
qed

lemma path_join_BASE: "\<not> startswith ''/'' b \<Longrightarrow> path_join BASE b = BASE @ b"
  by (simp add: path_join_def BASE_def endswith_def)

lemma txt_file_eq: "txt_file t = ''./stacker_best_model_'' @ t @ ''.txt''"
  by (simp add: txt_file_def path_join_def BASE_def endswith_def)

lemma pkl_file_eq: "pkl_file t = ''./stacker_best_model_'' @ t @ ''.pkl''"
  by (simp add: pkl_file_def path_join_def BASE_def endswith_def)

lemma across_txt_eq: "across_txt = ''./stacker_best_model_across_iterations.txt''"
  by (simp add: across_txt_def path_join_def BASE_def endswith_def)

lemma across_pkl_eq: "across_pkl = ''./stacker_best_model_across_iterations.pkl''"
  by (simp add: across_pkl_def path_join_def BASE_def endswith_def)

lemma output_model_card_eq: "output_model_card = ''./best-stacker-model-across-iterations.md''"
  by (simp add: output_model_card_def path_join_def BASE_def endswith_def)

lemma glob_match_name:
  assumes "glob_match pre suf p"
  shows "\<exists>r. p = BASE @ pre @ r \<and> CHR ''/'' \<notin> set (pre @ r)"
proof -
  from assms have b: "startswith BASE p" and s: "CHR ''/'' \<notin> set (drop (length BASE) p)"
    and n: "startswith pre (drop (length BASE) p)"
    by (simp_all add: glob_match_def)
  from b obtain name where p: "p = BASE @ name" unfolding startswith_iff by blast
  with n obtain r where "name = pre @ r" unfolding startswith_iff by auto
  with p s show ?thesis by auto
qed

lemma new_fname_metrics:
  assumes "is_tag t" and "glob_match (''stacker_binary_metrics_'' @ t @ ''_'') ''.csv'' f"
  shows "\<exists>r. path_join BASE (new_fname t f)
      = ''./stacker_binary_metrics_across_iterations'' @ r
    \<and> path_join BASE (new_fname t f) = BASE @ replace t ''across_iterations'' (basename f)"
proof -
  from assms(1) obtain ds where t: "t = ''iter'' @ ds" unfolding is_tag_iff by blast
  from glob_match_name [OF assms(2)] obtain r
    where f: "f = BASE @ (''stacker_binary_metrics_'' @ t @ ''_'') @ r"
      and s: "CHR ''/'' \<notin> set ((''stacker_binary_metrics_'' @ t @ ''_'') @ r)" by blast
  have "basename f = ''stacker_binary_metrics_'' @ (''iter'' @ ds) @ (''_'' @ r)"
    unfolding f using basename_BASE [OF s] by (simp add: t)
  then have n: "new_fname t f = ''stacker_binary_metrics_'' @ ''across_iterations''
      @ replace (''iter'' @ ds) ''across_iterations'' (''_'' @ r)"
    unfolding new_fname_def t by (simp only: replace_tag_after_prefix)
  then have "\<not> startswith ''/'' (new_fname t f)" by simp
  from path_join_BASE [OF this] n show ?thesis
    by (simp add: BASE_def new_fname_def)
qed

lemma keys_write_file:
  "map fst (write_file p c fls) = (if p \<in> set (map fst fls) then map fst fls else map fst fls @ [p])"
proof (induction fls)
  case Nil
  then show ?case by simp
next
  case (Cons kv fls)
  obtain q d where kv: "kv = (q, d)" by (cases kv)
  show ?case using Cons by (cases "q = p") (auto simp: kv)
qed

lemma glob_write_file:
  "\<not> glob_match pre suf p \<Longrightarrow> glob pre suf (write_file p c fls) = glob pre suf fls"
  by (simp add: glob_def keys_write_file)

subsection \<open>The files of an iteration\<close>

lemma suffix_clash:
  "length a = length b \<Longrightarrow> a \<noteq> b \<Longrightarrow> xs @ a \<noteq> ys @ b"
  by (metis append_eq_append_conv)

lemma belongs_to_cases:
  assumes "belongs_to t p"
  obtains "p = ''./stacker_best_model_folds_'' @ t @ ''.csv''"
  | "p = ''./stacker_best_model_'' @ t @ ''.txt''"
  | "p = ''./stacker_best_model_'' @ t @ ''.pkl''"
  | r where "p = ''./stacker_binary_metrics_'' @ t @ ''_'' @ r"
  using assms unfolding belongs_to_def
  by (auto simp: BASE_def dest!: glob_match_name)

lemma not_belongs_to_across_txt: "is_tag t \<Longrightarrow> \<not> belongs_to t across_txt"
proof
  assume t: "is_tag t" and b: "belongs_to t across_txt"
  from t obtain ds where ds: "t = ''iter'' @ ds" unfolding is_tag_iff by blast
  from b show False
    by (cases rule: belongs_to_cases) (simp_all add: across_txt_eq ds)
qed

lemma not_belongs_to_across_pkl: "is_tag t \<Longrightarrow> \<not> belongs_to t across_pkl"
proof
  assume t: "is_tag t" and b: "belongs_to t across_pkl"
  from t obtain ds where ds: "t = ''iter'' @ ds" unfolding is_tag_iff by blast
  from b show False
    by (cases rule: belongs_to_cases) (simp_all add: across_pkl_eq ds)
qed

lemma not_belongs_to_card: "is_tag t \<Longrightarrow> \<not> belongs_to t output_model_card"
proof
  assume t: "is_tag t" and b: "belongs_to t output_model_card"
  from b show False
    by (cases rule: belongs_to_cases) (simp_all add: output_model_card_eq)
qed

lemma not_belongs_to_metrics_dst:
  "is_tag t \<Longrightarrow> \<not> belongs_to t (''./stacker_binary_metrics_across_iterations'' @ r)"
proof
  assume t: "is_tag t" and b: "belongs_to t (''./stacker_binary_metrics_across_iterations'' @ r)"
  from t obtain ds where ds: "t = ''iter'' @ ds" unfolding is_tag_iff by blast
  from b show False
    by (cases rule: belongs_to_cases) (simp_all add: ds)
qed

lemma tag_no_underscore: "is_tag t \<Longrightarrow> CHR ''_'' \<notin> set t"
proof
  assume "is_tag t" and u: "CHR ''_'' \<in> set t"
  then obtain ds where ds: "t = ''iter'' @ ds" "list_all isdigit09 ds"
    unfolding is_tag_iff by blast
  with u have "CHR ''_'' \<in> set ds" by simp
  with ds(2) have "isdigit09 CHR ''_''" by (simp add: list_all_iff)
  then show False by (simp add: isdigit09_def)
qed

lemma tag_before_underscore:
  assumes "CHR ''_'' \<notin> set t" "CHR ''_'' \<notin> set t'" "t @ ''_'' @ r = t' @ ''_'' @ r'"
  shows "t = t'"
proof -
  have tw: "takeWhile (\<lambda>c. c \<noteq> CHR ''_'') (s @ CHR ''_'' # q) = s"
    if "CHR ''_'' \<notin> set s" for s q
  proof -
    have "takeWhile (\<lambda>c. c \<noteq> CHR ''_'') (s @ CHR ''_'' # q)
        = takeWhile (\<lambda>c. c \<noteq> CHR ''_'') s"
      by (rule takeWhile_tail) simp
    also have "\<dots> = s" unfolding takeWhile_eq_all_conv using that by blast
    finally show ?thesis .
  qed
  have "takeWhile (\<lambda>c. c \<noteq> CHR ''_'') (t @ CHR ''_'' # r) = t"
    using assms(1) by (rule tw)
  moreover have "takeWhile (\<lambda>c. c \<noteq> CHR ''_'') (t' @ CHR ''_'' # r') = t'"
    using assms(2) by (rule tw)
  ultimately show ?thesis using assms(3) by simp
qed

lemma belongs_to_unique:
  assumes "is_tag t" "is_tag t'" "belongs_to t p" "belongs_to t' p"
  shows "t = t'"
proof -
  from assms(1) obtain ds where ds: "t = ''iter'' @ ds" unfolding is_tag_iff by blast
  from assms(2) obtain ds' where ds': "t' = ''iter'' @ ds'" unfolding is_tag_iff by blast
  have u: "CHR ''_'' \<notin> set t" "CHR ''_'' \<notin> set t'"
    using assms(1,2) by (simp_all add: tag_no_underscore)
  have x1: "xs @ ''.txt'' \<noteq> ys @ ''.pkl''" for xs ys :: string
    by (rule suffix_clash) simp_all
  have x2: "xs @ ''.pkl'' \<noteq> ys @ ''.txt''" for xs ys :: string
    by (rule suffix_clash) simp_all
  from assms(3) show ?thesis
  proof (cases rule: belongs_to_cases)
    case 1
    from assms(4) show ?thesis
      by (cases rule: belongs_to_cases) (simp_all add: 1 ds ds')
  next
    case 2
    from assms(4) show ?thesis
      by (cases rule: belongs_to_cases) (simp_all add: 2 ds ds' x1)
  next
    case 3
    from assms(4) show ?thesis
      by (cases rule: belongs_to_cases) (simp_all add: 3 ds ds' x2)
  next
    case (4 r)
    from assms(4) show ?thesis
    proof (cases rule: belongs_to_cases)
      case (4 r')
      with \<open>p = ''./stacker_binary_metrics_'' @ t @ ''_'' @ r\<close>
      have "t @ ''_'' @ r = t' @ ''_'' @ r'" by simp
      with u show ?thesis by (rule tag_before_underscore)
    qed (simp_all add: 4 ds ds')
  qed
qed

lemma belongs_to_txt_file: "belongs_to t (txt_file t)"
  by (simp add: belongs_to_def txt_file_eq BASE_def)

lemma belongs_to_pkl_file: "belongs_to t (pkl_file t)"
  by (simp add: belongs_to_def pkl_file_eq BASE_def)

lemma belongs_to_metrics:
  "f \<in> set (metrics_files t fls) \<Longrightarrow> belongs_to t f"
  by (simp add: belongs_to_def metrics_files_def glob_def)

lemma not_metrics_across_txt:
  "\<not> glob_match (''stacker_binary_metrics_'' @ t @ ''_'') ''.csv'' across_txt"
  by (auto simp: across_txt_eq BASE_def dest!: glob_match_name)

lemma not_metrics_across_pkl:
  "\<not> glob_match (''stacker_binary_metrics_'' @ t @ ''_'') ''.csv'' across_pkl"
  by (auto simp: across_pkl_eq BASE_def dest!: glob_match_name)

lemma pkl_not_across_txt: "pkl_file t \<noteq> across_txt"
proof -
  have "xs @ ''.pkl'' \<noteq> ys @ ''.txt''" for xs ys :: string
    by (rule suffix_clash) simp_all
  from this [of t "''across_iterations''"] show ?thesis
    by (simp add: pkl_file_eq across_txt_eq)
qed

subsection \<open>What the copies do\<close>

lemma copy_metrics_trace:
  fixes t :: string
  defines "d \<equiv> \<lambda>f. path_join BASE (new_fname t f)"
  assumes "copy_metrics t ms st = Inr st'"
  shows "copies st' = copies st @ map (\<lambda>f. (f, d f)) ms
    \<and> (\<forall>p. p \<notin> d ` set ms \<longrightarrow> map_of (files st') p = map_of (files st) p)
    \<and> ((\<forall>g \<in> set ms. d g \<notin> set ms) \<longrightarrow>
         (\<forall>f \<in> set ms. \<exists>f' \<in> set ms. d f' = d f
             \<and> map_of (files st') (d f) = map_of (files st) f'))"
  using assms(2)
proof (induction ms arbitrary: st)
  case Nil
  then show ?case by simp
next
  case (Cons f ms)
  from Cons.prems obtain st1 where st1: "shutil_copy f (d f) st = Inr st1"
    and rest: "copy_metrics t ms st1 = Inr st'"
    by (auto simp: d_def split: sum.splits)
  from shutil_copy_Inr [OF st1] obtain c where c: "map_of (files st) f = Some c"
    and f1: "map_of (files st1) = (map_of (files st))(d f \<mapsto> c)"
    and c1: "copies st1 = copies st @ [(f, d f)]"
    by (auto simp: map_of_write_file)
  note ih = Cons.IH [OF rest]
  have a: "copies st' = copies st @ map (\<lambda>f. (f, d f)) (f # ms)"
    using ih c1 by simp
  have b: "\<forall>p. p \<notin> d ` set (f # ms) \<longrightarrow> map_of (files st') p = map_of (files st) p"
    using ih f1 by simp
  have cc: "\<forall>g \<in> set (f # ms). \<exists>f' \<in> set (f # ms). d f' = d g
      \<and> map_of (files st') (d g) = map_of (files st) f'"
    if nd: "\<forall>g \<in> set (f # ms). d g \<notin> set (f # ms)"
  proof
    fix g assume g: "g \<in> set (f # ms)"
    from nd have nd': "\<forall>g \<in> set ms. d g \<notin> set ms" by simp
    show "\<exists>f' \<in> set (f # ms). d f' = d g \<and> map_of (files st') (d g) = map_of (files st) f'"
    proof (cases "d g \<in> d ` set ms")
      case True
      then obtain g' where g': "g' \<in> set ms" "d g' = d g" by auto
      with ih nd' obtain f' where f': "f' \<in> set ms" "d f' = d g'"
        "map_of (files st') (d g') = map_of (files st1) f'" by blast
      from nd f'(1) have "f' \<noteq> d f" by auto
      with f'(3) f1 have "map_of (files st') (d g') = map_of (files st) f'" by simp
      with f' g' show ?thesis by auto
    next
      case False
      with g have gf: "g = f" by auto
      from False ih have "map_of (files st') (d g) = map_of (files st1) (d g)" by blast
      also have "\<dots> = map_of (files st) f" using f1 c by (simp add: gf)
      finally show ?thesis by (auto simp: gf)
    qed
  qed
  from a b cc show ?case by blast
qed

lemma copy_if_exists_trace:
  assumes "copy_if_exists src dst st = Inr st'"
  shows "copies st' = copies st @ (if path_exists src (files st) then [(src, dst)] else [])
    \<and> (\<forall>p. p \<noteq> dst \<longrightarrow> map_of (files st') p = map_of (files st) p)
    \<and> (\<not> path_exists src (files st) \<longrightarrow> st' = st)
    \<and> (\<exists>c. files st' = files st \<or> files st' = write_file dst c (files st))"
proof (cases "path_exists src (files st)")
  case True
  with assms have "shutil_copy src dst st = Inr st'" by (simp add: copy_if_exists_def)
  from shutil_copy_Inr [OF this] True show ?thesis by (auto simp: map_of_write_file)
next
  case False
  with assms show ?thesis by (simp add: copy_if_exists_def)
qed

lemma metrics_dst_not_source:
  assumes "is_tag t" "g \<in> set (metrics_files t fls)"
  shows "path_join BASE (new_fname t g) \<notin> set (metrics_files t fls')"
    and "path_join BASE (new_fname t g) \<noteq> across_txt"
    and "path_join BASE (new_fname t g) \<noteq> across_pkl"
    and "path_join BASE (new_fname t g) \<noteq> output_model_card"
    and "\<And>t'. is_tag t' \<Longrightarrow> \<not> belongs_to t' (path_join BASE (new_fname t g))"
proof -
  from assms(2) have "glob_match (''stacker_binary_metrics_'' @ t @ ''_'') ''.csv'' g"
    by (simp add: metrics_files_def glob_def)
  from new_fname_metrics [OF assms(1) this] obtain r
    where r: "path_join BASE (new_fname t g) = ''./stacker_binary_metrics_across_iterations'' @ r"
    by blast
  show "\<not> belongs_to t' (path_join BASE (new_fname t g))" if "is_tag t'" for t'
    unfolding r using that by (rule not_belongs_to_metrics_dst)
  then show "path_join BASE (new_fname t g) \<notin> set (metrics_files t fls')"
    using assms(1) belongs_to_metrics by blast
  show "path_join BASE (new_fname t g) \<noteq> across_txt" by (simp add: r across_txt_eq)
  show "path_join BASE (new_fname t g) \<noteq> across_pkl" by (simp add: r across_pkl_eq)
  show "path_join BASE (new_fname t g) \<noteq> output_model_card"
    by (simp add: r output_model_card_eq)
qed

lemma metrics_files_cong:
  assumes "files st' = files st \<or> files st' = write_file p c (files st)"
    and "\<not> glob_match (''stacker_binary_metrics_'' @ t @ ''_'') ''.csv'' p"
  shows "metrics_files t (files st') = metrics_files t (files st)"
  using assms by (auto simp: metrics_files_def glob_write_file)

lemma copy_artifacts_trace_all:
  assumes "copy_artifacts t st = Inr (st', ms)"
  shows "ms = metrics_files t (files st)
    \<and> copies st' = copies st
        @ (if path_exists (txt_file t) (files st) then [(txt_file t, across_txt)] else [])
        @ (if path_exists (pkl_file t) (files st) then [(pkl_file t, across_pkl)] else [])
        @ map (\<lambda>f. (f, path_join BASE (new_fname t f))) ms
    \<and> (\<forall>p. p \<noteq> across_txt \<and> p \<noteq> across_pkl \<and> p \<notin> (\<lambda>f. path_join BASE (new_fname t f)) ` set ms \<longrightarrow>
          map_of (files st') p = map_of (files st) p)
    \<and> (is_tag t \<longrightarrow>
          (\<forall>f \<in> set ms. \<exists>f' \<in> set ms. path_join BASE (new_fname t f') = path_join BASE (new_fname t f)
              \<and> map_of (files st') (path_join BASE (new_fname t f)) = map_of (files st) f'))
    \<and> (is_tag t \<and> \<not> path_exists (txt_file t) (files st) \<longrightarrow>
          map_of (files st') across_txt = map_of (files st) across_txt)
    \<and> (is_tag t \<and> \<not> path_exists (pkl_file t) (files st) \<longrightarrow>
          map_of (files st') across_pkl = map_of (files st) across_pkl)"
proof -
  from assms obtain st1 st2
    where s1: "copy_if_exists (txt_file t) across_txt st = Inr st1"
      and s2: "copy_if_exists (pkl_file t) across_pkl st1 = Inr st2"
      and ms2: "ms = metrics_files t (files st2)"
      and s3: "copy_metrics t ms st2 = Inr st'"
    by (auto simp: copy_artifacts_def Let_def split: sum.splits)
  note t1 = copy_if_exists_trace [OF s1]
  note t2 = copy_if_exists_trace [OF s2]
  note t3 = copy_metrics_trace [OF s3]
  have m1: "metrics_files t (files st1) = metrics_files t (files st)"
    using t1 not_metrics_across_txt [of t] metrics_files_cong [of st1 st across_txt _ t] by blast
  have m2: "metrics_files t (files st2) = metrics_files t (files st1)"
    using t2 not_metrics_across_pkl [of t] metrics_files_cong [of st2 st1 across_pkl _ t] by blast
  have ms: "ms = metrics_files t (files st)" using ms2 m1 m2 by simp
  have pk: "path_exists (pkl_file t) (files st1) = path_exists (pkl_file t) (files st)"
    using t1 pkl_not_across_txt [of t] by (simp add: path_exists_def)
  have cp: "copies st' = copies st
        @ (if path_exists (txt_file t) (files st) then [(txt_file t, across_txt)] else [])
        @ (if path_exists (pkl_file t) (files st) then [(pkl_file t, across_pkl)] else [])
        @ map (\<lambda>f. (f, path_join BASE (new_fname t f))) ms"
    using t1 t2 t3 pk by simp
  have fr: "\<forall>p. p \<noteq> across_txt \<and> p \<noteq> across_pkl \<and> p \<notin> (\<lambda>f. path_join BASE (new_fname t f)) ` set ms \<longrightarrow>
          map_of (files st') p = map_of (files st) p"
    using t1 t2 t3 by simp
  have src: "map_of (files st2) f = map_of (files st) f" if "f \<in> set ms" for f
  proof -
    from that have "glob_match (''stacker_binary_metrics_'' @ t @ ''_'') ''.csv'' f"
      by (simp add: ms metrics_files_def glob_def)
    with not_metrics_across_txt [of t] not_metrics_across_pkl [of t]
    have "f \<noteq> across_txt" "f \<noteq> across_pkl" by auto
    with t1 t2 show ?thesis by simp
  qed
  have ct: "\<forall>f \<in> set ms. \<exists>f' \<in> set ms. path_join BASE (new_fname t f') = path_join BASE (new_fname t f)
      \<and> map_of (files st') (path_join BASE (new_fname t f)) = map_of (files st) f'" if tg: "is_tag t"
  proof -
    have "\<forall>g \<in> set ms. path_join BASE (new_fname t g) \<notin> set ms"
      unfolding ms using metrics_dst_not_source(1) [OF tg] by blast
    with t3 have "\<forall>f \<in> set ms. \<exists>f' \<in> set ms. path_join BASE (new_fname t f') = path_join BASE (new_fname t f)
        \<and> map_of (files st') (path_join BASE (new_fname t f)) = map_of (files st2) f'" by blast
    with src show ?thesis by metis
  qed
  have nt: "across_txt \<notin> (\<lambda>f. path_join BASE (new_fname t f)) ` set ms" "across_pkl \<notin> (\<lambda>f. path_join BASE (new_fname t f)) ` set ms" if tg: "is_tag t"
    unfolding ms
    using metrics_dst_not_source(2) [OF tg] metrics_dst_not_source(3) [OF tg] by fastforce+
  have xt: "map_of (files st') across_txt = map_of (files st) across_txt"
    if tg: "is_tag t" and ne: "\<not> path_exists (txt_file t) (files st)"
  proof -
    have "st1 = st" using t1 ne by simp
    moreover have "across_txt \<noteq> across_pkl" by (simp add: across_txt_eq across_pkl_eq)
    ultimately show ?thesis using t2 t3 nt(1) [OF tg] by simp
  qed
  have xp: "map_of (files st') across_pkl = map_of (files st) across_pkl"
    if tg: "is_tag t" and ne: "\<not> path_exists (pkl_file t) (files st)"
  proof -
    have "st2 = st1" using t2 ne pk by simp
    moreover have "across_pkl \<noteq> across_txt" by (simp add: across_txt_eq across_pkl_eq)
    ultimately show ?thesis using t1 t3 nt(2) [OF tg] by simp
  qed
  from ms cp fr ct xt xp show ?thesis by blast
qed

lemma copy_artifacts_trace:
  assumes "copy_artifacts t \<lparr>files = fls, copies = []\<rparr> = Inr (st', ms)"
  shows "ms = metrics_files t fls"
    and "copies st' =
        (if path_exists (txt_file t) fls then [(txt_file t, across_txt)] else [])
        @ (if path_exists (pkl_file t) fls then [(pkl_file t, across_pkl)] else [])
        @ map (\<lambda>f. (f, path_join BASE (new_fname t f))) ms"
    and "\<forall>p. p \<noteq> across_txt \<and> p \<noteq> across_pkl
          \<and> p \<notin> (\<lambda>f. path_join BASE (new_fname t f)) ` set ms \<longrightarrow>
          map_of (files st') p = map_of fls p"
    and "is_tag t \<Longrightarrow> \<forall>f \<in> set ms. \<exists>f' \<in> set ms.
          path_join BASE (new_fname t f') = path_join BASE (new_fname t f)
          \<and> map_of (files st') (path_join BASE (new_fname t f)) = map_of fls f'"
    and "is_tag t \<Longrightarrow> \<not> path_exists (txt_file t) fls \<Longrightarrow>
          map_of (files st') across_txt = map_of fls across_txt"
    and "is_tag t \<Longrightarrow> \<not> path_exists (pkl_file t) fls \<Longrightarrow>
          map_of (files st') across_pkl = map_of fls across_pkl"
proof -
  note all = copy_artifacts_trace_all [OF assms]
  have f: "files \<lparr>files = fls, copies = []\<rparr> = fls"
    and c: "copies \<lparr>files = fls, copies = []\<rparr> = []" by simp_all
  from all show "ms = metrics_files t fls" unfolding f by blast
  from all show "copies st' =
        (if path_exists (txt_file t) fls then [(txt_file t, across_txt)] else [])
        @ (if path_exists (pkl_file t) fls then [(pkl_file t, across_pkl)] else [])
        @ map (\<lambda>f. (f, path_join BASE (new_fname t f))) ms"
    unfolding f c append_Nil by blast
  from all show "\<forall>p. p \<noteq> across_txt \<and> p \<noteq> across_pkl
          \<and> p \<notin> (\<lambda>f. path_join BASE (new_fname t f)) ` set ms \<longrightarrow>
          map_of (files st') p = map_of fls p"
    unfolding f by blast
  from all show "\<forall>f \<in> set ms. \<exists>f' \<in> set ms.
          path_join BASE (new_fname t f') = path_join BASE (new_fname t f)
          \<and> map_of (files st') (path_join BASE (new_fname t f)) = map_of fls f'"
    if "is_tag t" using that unfolding f by blast
  from all show "map_of (files st') across_txt = map_of fls across_txt"
    if "is_tag t" "\<not> path_exists (txt_file t) fls" using that unfolding f by blast
  from all show "map_of (files st') across_pkl = map_of fls across_pkl"
    if "is_tag t" "\<not> path_exists (pkl_file t) fls" using that unfolding f by blast
qed

lemma search_iter_is_tag: "search_iter s = Some t \<Longrightarrow> is_tag t"
proof (induction s)
  case Nil
  then show ?case by simp
next
  case (Cons c cs)
  define found where "found = (startswith ''iter'' (c # cs)
      \<and> (case drop 4 (c # cs) of [] \<Rightarrow> False | d # ds \<Rightarrow> isdigit09 d))"
  have eq: "search_iter (c # cs)
      = (if found then Some (''iter'' @ takeWhile isdigit09 (drop 4 (c # cs)))
         else search_iter cs)"
    unfolding found_def by (rule search_iter.simps(2))
  show ?case
  proof (cases found)
    case True
    with Cons.prems eq have t: "t = ''iter'' @ takeWhile isdigit09 (drop 4 (c # cs))"
      by simp
    from True obtain d ds where d: "drop 4 (c # cs) = d # ds" "isdigit09 d"
      unfolding found_def by (cases "drop 4 (c # cs)") auto
    then have "takeWhile isdigit09 (drop 4 (c # cs)) \<noteq> []" by simp
    moreover have "list_all isdigit09 (takeWhile isdigit09 (drop 4 (c # cs)))"
      by (auto simp: list_all_iff dest: set_takeWhileD)
    ultimately show ?thesis unfolding is_tag_iff t by blast
  next
    case False
    with Cons.prems eq have "search_iter cs = Some t" by simp
    then show ?thesis by (rule Cons.IH)
  qed
qed

lemma best_iteration_is_tag: "best_iteration fls = Inr (best_file, avg, t) \<Longrightarrow> is_tag t"
  by (auto simp: best_iteration_def split: sum.splits option.splits prod.splits
      dest: search_iter_is_tag)

lemma selector_trace:
  assumes "best_iteration fls = Inr (best_file, avg, t)"
  shows "\<exists>st. selector fmt4 fls = Inr st
    \<and> copies st =
        (if path_exists (txt_file t) fls then [(txt_file t, across_txt)] else [])
        @ (if path_exists (pkl_file t) fls then [(pkl_file t, across_pkl)] else [])
        @ map (\<lambda>f. (f, path_join BASE (new_fname t f))) (metrics_files t fls)
    \<and> map_of (files st) output_model_card
        = Some (Blob (concat (model_card fmt4 t avg (metrics_files t fls))))
    \<and> (\<forall>p. p \<noteq> across_txt \<and> p \<noteq> across_pkl \<and> p \<noteq> output_model_card
          \<and> p \<notin> (\<lambda>f. path_join BASE (new_fname t f)) ` set (metrics_files t fls) \<longrightarrow>
          map_of (files st) p = map_of fls p)
    \<and> (\<forall>f \<in> set (metrics_files t fls). \<exists>f' \<in> set (metrics_files t fls).
          path_join BASE (new_fname t f') = path_join BASE (new_fname t f)
          \<and> map_of (files st) (path_join BASE (new_fname t f)) = map_of fls f')
    \<and> (\<not> path_exists (txt_file t) fls \<longrightarrow> map_of (files st) across_txt = map_of fls across_txt)
    \<and> (\<not> path_exists (pkl_file t) fls \<longrightarrow> map_of (files st) across_pkl = map_of fls across_pkl)"
proof -
  have tg: "is_tag t" using assms by (rule best_iteration_is_tag)
  obtain st' ms0 where ca0: "copy_artifacts t \<lparr>files = fls, copies = []\<rparr> = Inr (st', ms0)"
    using copy_artifacts_ok by blast
  define ms where "ms = metrics_files t fls"
  define d where "d = (\<lambda>f. path_join BASE (new_fname t f))"
  have "ms0 = ms" using copy_artifacts_trace(1) [OF ca0] by (simp add: ms_def)
  with ca0 have ca: "copy_artifacts t \<lparr>files = fls, copies = []\<rparr> = Inr (st', ms)" by simp
  define st where "st = write_model_card (model_card fmt4 t avg ms) st'"
  have sel: "selector fmt4 fls = Inr st" using assms ca by (simp add: selector_def st_def)
  have t_cp: "copies st' =
        (if path_exists (txt_file t) fls then [(txt_file t, across_txt)] else [])
        @ (if path_exists (pkl_file t) fls then [(pkl_file t, across_pkl)] else [])
        @ map (\<lambda>f. (f, d f)) ms"
    unfolding d_def by (rule copy_artifacts_trace(2) [OF ca])
  have t_fr: "\<forall>p. p \<noteq> across_txt \<and> p \<noteq> across_pkl \<and> p \<notin> d ` set ms \<longrightarrow>
          map_of (files st') p = map_of fls p"
    unfolding d_def by (rule copy_artifacts_trace(3) [OF ca])
  have t_ct: "\<forall>f \<in> set ms. \<exists>f' \<in> set ms. d f' = d f \<and> map_of (files st') (d f) = map_of fls f'"
    unfolding d_def by (rule copy_artifacts_trace(4) [OF ca tg])
  have t_xt: "\<not> path_exists (txt_file t) fls \<longrightarrow> map_of (files st') across_txt = map_of fls across_txt"
    using copy_artifacts_trace(5) [OF ca tg] by blast
  have t_xp: "\<not> path_exists (pkl_file t) fls \<longrightarrow> map_of (files st') across_pkl = map_of fls across_pkl"
    using copy_artifacts_trace(6) [OF ca tg] by blast
  have cp: "copies st = copies st'" by (simp add: st_def write_model_card_def)
  have fl: "map_of (files st)
      = (map_of (files st'))(output_model_card \<mapsto> Blob (concat (model_card fmt4 t avg ms)))"
    by (simp add: st_def write_model_card_def map_of_write_file)
  have c1: "across_txt \<noteq> output_model_card" "across_pkl \<noteq> output_model_card"
    by (simp_all add: across_txt_eq across_pkl_eq output_model_card_eq)
  have c2: "d f \<noteq> output_model_card" if "f \<in> set ms" for f
    using metrics_dst_not_source(4) [OF tg, of f fls] that unfolding ms_def d_def by blast
  have r1: "copies st =
        (if path_exists (txt_file t) fls then [(txt_file t, across_txt)] else [])
        @ (if path_exists (pkl_file t) fls then [(pkl_file t, across_pkl)] else [])
        @ map (\<lambda>f. (f, d f)) ms"
    unfolding cp by (rule t_cp)
  have r2: "map_of (files st) output_model_card
        = Some (Blob (concat (model_card fmt4 t avg ms)))"
    unfolding fl by simp
  have r3: "\<forall>p. p \<noteq> across_txt \<and> p \<noteq> across_pkl \<and> p \<noteq> output_model_card
          \<and> p \<notin> d ` set ms \<longrightarrow> map_of (files st) p = map_of fls p"
    unfolding fl using t_fr by simp
  have r4: "\<forall>f \<in> set ms. \<exists>f' \<in> set ms. d f' = d f \<and> map_of (files st) (d f) = map_of fls f'"
  proof
    fix f assume f: "f \<in> set ms"
    with t_ct obtain f' where f': "f' \<in> set ms" "d f' = d f"
      "map_of (files st') (d f) = map_of fls f'" by blast
    have "map_of (files st) (d f) = map_of (files st') (d f)"
      unfolding fl using c2 [OF f] by simp
    with f' show "\<exists>f' \<in> set ms. d f' = d f \<and> map_of (files st) (d f) = map_of fls f'"
      by auto
  qed
  have r5: "\<not> path_exists (txt_file t) fls \<longrightarrow> map_of (files st) across_txt = map_of fls across_txt"
    unfolding fl using t_xt c1 by simp
  have r6: "\<not> path_exists (pkl_file t) fls \<longrightarrow> map_of (files st) across_pkl = map_of fls across_pkl"
    unfolding fl using t_xp c1 by simp
  from sel r1 r2 r3 r4 r5 r6 show ?thesis
    unfolding ms_def d_def by blast
qed

section \<open>Lemmas on the resource logger\<close>

lemma run_logged_existing:
  "run_logged fmt runs (Some rows) = Some (rows @ map (\<lambda>(tag, s). log_row fmt tag s) runs)"
  by (induction runs arbitrary: rows) (auto simp: ResourceLogger_def)

section \<open>Claims on the note aggregator\<close>

lemma prepare_stripped: "r \<in> set (prepare df) \<Longrightarrow> stripped (note_text r)"
  by (auto simp: prepare_def sort_values_def map_clean_def clean_text_def Let_def
      stripped_strip)

lemma grouped_notes_stripped:
  assumes "(s, hadm_dict) \<in> set (notes_grouped (prepare df))" "(h, note_list) \<in> set hadm_dict"
  shows "\<forall>n \<in> set note_list. stripped n"
  unfolding notes_grouped_entry [OF assms]
  by (auto simp: admission_rows_def prepare_stripped)

lemma note_sequences_entry:
  assumes "(s, hadm_dict) \<in> set g" "(h, note_list) \<in> set hadm_dict"
  shows "\<exists>adms. (s, adms) \<in> set (note_sequences g) \<and> combine min_note_len note_list \<in> set adms"
proof -
  let ?adms = "map (\<lambda>(h, note_list). combine min_note_len note_list) hadm_dict"
  have "(s, ?adms) \<in> set (note_sequences g)"
    using assms(1) unfolding note_sequences_def by force
  moreover have "combine min_note_len note_list \<in> set ?adms"
    using assms(2) by force
  ultimately show ?thesis by blast
qed

text \<open>
  C1, as the specification has it: the notes \<open>"short"\<close> and a note of 56 characters, of
  one admission, are merged into the single note
  \<open>"short a sufficiently long note text exceeding forty characters"\<close>.
  The loop does not do that: the result is not this one-note list.
\<close>

theorem example_merge_is_not_one_note:
  "combine min_note_len
     [''short'', ''a sufficiently long note text exceeding forty characters'']
   \<noteq> [''short a sufficiently long note text exceeding forty characters'']"
  by (simp add: combine_def min_note_len_def strip_def isspace_def)

text \<open>
  C1, amended: with the minimum length 40, the two notes of the example come out as two
  notes, \<open>"short"\<close> and then the long note unchanged. The long note is not short, so the
  buffer holding \<open>"short"\<close> is flushed as a note of its own before the long note is
  appended. The same holds through the whole script, for a table of these two rows
  (patient 1, admission 1, the instants 0 and 1).
\<close>

theorem example_merge_two_notes:
  "combine min_note_len
     [''short'', ''a sufficiently long note text exceeding forty characters'']
   = [''short'', ''a sufficiently long note text exceeding forty characters'']
   \<and> process_noteevents
     [\<lparr>SUBJECT_ID = 1, HADM_ID = Some 1, CHARTTIME = Some 0, CATEGORY = Some ''Nursing'',
        TEXT = Some ''short''\<rparr>,
      \<lparr>SUBJECT_ID = 1, HADM_ID = Some 1, CHARTTIME = Some 1, CATEGORY = Some ''Nursing'',
        TEXT = Some ''a sufficiently long note text exceeding forty characters''\<rparr>]
   = [(1, [[''short'', ''a sufficiently long note text exceeding forty characters'']])]"
proof
  show "combine min_note_len
     [''short'', ''a sufficiently long note text exceeding forty characters'']
   = [''short'', ''a sufficiently long note text exceeding forty characters'']"
    by (simp add: combine_def min_note_len_def strip_def isspace_def)
  show "process_noteevents
     [\<lparr>SUBJECT_ID = 1, HADM_ID = Some 1, CHARTTIME = Some 0, CATEGORY = Some ''Nursing'',
        TEXT = Some ''short''\<rparr>,
      \<lparr>SUBJECT_ID = 1, HADM_ID = Some 1, CHARTTIME = Some 1, CATEGORY = Some ''Nursing'',
        TEXT = Some ''a sufficiently long note text exceeding forty characters''\<rparr>]
   = [(1, [[''short'', ''a sufficiently long note text exceeding forty characters'']])]"
    by code_simp
qed

text \<open>
  C2, as the specification has it: every output note has at least 40 characters, but for
  the last note of an admission. A table of one admission with a short note, a long note
  and a short note refutes it: the script gives three notes, and the first, which is not
  the last, has 9 characters.
\<close>

theorem short_note_before_the_last:
  "process_noteevents
     [\<lparr>SUBJECT_ID = 7, HADM_ID = Some 3, CHARTTIME = Some 10, CATEGORY = Some ''Nursing'',
        TEXT = Some ''pt stable''\<rparr>,
      \<lparr>SUBJECT_ID = 7, HADM_ID = Some 3, CHARTTIME = Some 20, CATEGORY = Some ''Physician'',
        TEXT = Some ''patient seen and examined, plan discussed with the family''\<rparr>,
      \<lparr>SUBJECT_ID = 7, HADM_ID = Some 3, CHARTTIME = Some 30, CATEGORY = Some ''Nursing'',
        TEXT = Some ''resting''\<rparr>]
   = [(7, [[''pt stable'', ''patient seen and examined, plan discussed with the family'',
            ''resting'']])]
   \<and> length ''pt stable'' < min_note_len"
proof
  show "process_noteevents
     [\<lparr>SUBJECT_ID = 7, HADM_ID = Some 3, CHARTTIME = Some 10, CATEGORY = Some ''Nursing'',
        TEXT = Some ''pt stable''\<rparr>,
      \<lparr>SUBJECT_ID = 7, HADM_ID = Some 3, CHARTTIME = Some 20, CATEGORY = Some ''Physician'',
        TEXT = Some ''patient seen and examined, plan discussed with the family''\<rparr>,
      \<lparr>SUBJECT_ID = 7, HADM_ID = Some 3, CHARTTIME = Some 30, CATEGORY = Some ''Nursing'',
        TEXT = Some ''resting''\<rparr>]
   = [(7, [[''pt stable'', ''patient seen and examined, plan discussed with the family'',
            ''resting'']])]"
    by code_simp
  show "length ''pt stable'' < min_note_len" by (simp add: min_note_len_def)
qed

text \<open>
  C2, amended: the output of an admission is the list of its pieces, in order, one
  string each. A piece is a long note (at least 40 characters), which is output unchanged,
  or a maximal run of consecutive short notes, which is output as the flushed buffer: the
  notes of the run, each after a space, stripped. A run is flushed before the long note
  that ends it as well as at the end of the admission, so an output note shorter than 40
  can stand anywhere, but is always such a flushed buffer. The pieces hold every input
  note once, in the input order: no fragment is dropped.
\<close>

theorem output_is_long_or_flushed_buffer:
  "combine min_note_len note_list = map render (pieces min_note_len [] note_list)
   \<and> concat (map notes_of (pieces min_note_len [] note_list)) = note_list
   \<and> list_all (piece_ok min_note_len) (pieces min_note_len [] note_list)
   \<and> no_adjacent_flushes (pieces min_note_len [] note_list)
   \<and> (\<forall>out \<in> set (combine min_note_len note_list).
         40 \<le> length out
         \<or> (\<exists>run. Flush run \<in> set (pieces min_note_len [] note_list)
               \<and> out = strip (buffer_of run)))"
proof (intro conjI ballI)
  show "combine min_note_len note_list = map render (pieces min_note_len [] note_list)"
    by (rule combine_pieces)
  show "concat (map notes_of (pieces min_note_len [] note_list)) = note_list"
    by (simp add: notes_of_pieces)
  show p: "list_all (piece_ok min_note_len) (pieces min_note_len [] note_list)"
    by (rule pieces_ok) simp
  show "no_adjacent_flushes (pieces min_note_len [] note_list)"
    by (rule no_adjacent_flushes_pieces)
  fix out assume "out \<in> set (combine min_note_len note_list)"
  then obtain p where p_in: "p \<in> set (pieces min_note_len [] note_list)" and out: "out = render p"
    by (auto simp: combine_pieces)
  from p p_in have ok: "piece_ok min_note_len p" by (simp add: list_all_iff)
  show "40 \<le> length out
     \<or> (\<exists>run. Flush run \<in> set (pieces min_note_len [] note_list) \<and> out = strip (buffer_of run))"
  proof (cases p)
    case (Long n)
    with ok out show ?thesis by (simp add: min_note_len_def)
  next
    case (Flush run)
    with p_in out show ?thesis by auto
  qed
qed

theorem output_is_long_or_flushed_buffer_witness:
  "''short'' \<in> set (combine min_note_len
      [''short'', ''a sufficiently long note text exceeding forty characters''])
   \<and> \<not> 40 \<le> length ''short''
   \<and> (\<exists>run. Flush run \<in> set (pieces min_note_len []
          [''short'', ''a sufficiently long note text exceeding forty characters''])
        \<and> ''short'' = strip (buffer_of run))"
proof -
  let ?l = "[''short'', ''a sufficiently long note text exceeding forty characters'']"
  have a: "''short'' \<in> set (combine min_note_len ?l)"
    by (simp add: combine_def min_note_len_def strip_def isspace_def)
  have b: "\<not> 40 \<le> length ''short''" by simp
  from output_is_long_or_flushed_buffer [of ?l] a
  have "40 \<le> length ''short''
     \<or> (\<exists>run. Flush run \<in> set (pieces min_note_len [] ?l) \<and> ''short'' = strip (buffer_of run))"
    by blast
  with a b show ?thesis by blast
qed

text \<open>
  C3: for the note list of any admission of any table (the notes are cleaned texts, in the
  order of the sorted table), the merged notes, put end to end, hold every note of the
  list, one after the other in the order of the list. The short notes after the last long
  one are flushed together as the last merged note, which holds them in order.
\<close>

theorem merge_keeps_every_note_in_order:
  assumes "(s, hadm_dict) \<in> set (notes_grouped (prepare df))"
    and "(h, note_list) \<in> set hadm_dict"
  shows "occurs_in_order note_list (concat (combine min_note_len note_list))
    \<and> (trailing_short min_note_len note_list \<noteq> [] \<longrightarrow>
         combine min_note_len note_list \<noteq> []
         \<and> last (combine min_note_len note_list)
             = strip (buffer_of (trailing_short min_note_len note_list))
         \<and> occurs_in_order (trailing_short min_note_len note_list)
             (last (combine min_note_len note_list)))"
proof -
  have st: "\<forall>n \<in> set note_list. stripped n"
    using assms by (rule grouped_notes_stripped)
  then have "\<forall>n \<in> set (trailing_short min_note_len note_list). stripped n"
    using set_trailing_short [of min_note_len note_list] by blast
  then have "occurs_in_order (trailing_short min_note_len note_list)
    (strip (buffer_of (trailing_short min_note_len note_list)))"
    by (rule occurs_in_order_flush)
  with last_combine [of min_note_len note_list] occurs_in_order_combine [OF st, of min_note_len]
  show ?thesis by simp
qed

theorem merge_keeps_every_note_in_order_witness:
  "occurs_in_order
     [''short'', ''patient admitted with chest pain and shortness of breath.'',
      ''stable overnight'']
     (concat (combine min_note_len
        [''short'', ''patient admitted with chest pain and shortness of breath.'',
         ''stable overnight'']))
   \<and> last (combine min_note_len
        [''short'', ''patient admitted with chest pain and shortness of breath.'',
         ''stable overnight'']) = ''stable overnight''"
proof -
  let ?l = "[''short'', ''patient admitted with chest pain and shortness of breath.'',
      ''stable overnight'']"
  have a: "(1, [(1, ?l)]) \<in> set (notes_grouped (prepare example_table))"
    by code_simp
  have b: "(1, ?l) \<in> set [(1 :: int, ?l)]" by simp
  have c: "trailing_short min_note_len ?l = [''stable overnight'']"
    by (simp add: trailing_short_def min_note_len_def)
  have d: "strip (buffer_of [''stable overnight'']) = ''stable overnight''"
    by (simp add: buffer_of_def strip_def isspace_def)
  from merge_keeps_every_note_in_order [OF a b] show ?thesis
    unfolding c d by simp
qed

text \<open>
  C7: for any table, the note list of an admission holds the texts of the admission's
  rows, one note a row, and when all these rows have a valid timestamp the timestamps, read
  in the order of the note list, never decrease. The admission's entry of the output is
  the merge of this list, which keeps its order (C3).
\<close>

theorem admission_notes_in_time_order:
  assumes "(s, hadm_dict) \<in> set (notes_grouped (prepare df))"
    and "(h, note_list) \<in> set hadm_dict"
    and "\<forall>r \<in> set (admission_rows (prepare df) s h). charttime r \<noteq> None"
  shows "\<exists>ts. note_list = map note_text (admission_rows (prepare df) s h)
      \<and> map charttime (admission_rows (prepare df) s h) = map Some ts
      \<and> sorted ts
      \<and> (\<exists>adms. (s, adms) \<in> set (process_noteevents df)
            \<and> combine min_note_len note_list \<in> set adms)"
proof -
  have "sorted (map (\<lambda>r. time_key (charttime r)) (admission_rows (prepare df) s h))"
    unfolding prepare_def by (rule sorted_admission_rows)
  from sorted_valid_times [OF this assms(3)] obtain ts
    where "map charttime (admission_rows (prepare df) s h) = map Some ts" "sorted ts"
    by blast
  moreover have "note_list = map note_text (admission_rows (prepare df) s h)"
    using assms(1,2) by (rule notes_grouped_entry)
  moreover have "\<exists>adms. (s, adms) \<in> set (process_noteevents df)
      \<and> combine min_note_len note_list \<in> set adms"
    unfolding process_noteevents_def using assms(1,2) by (rule note_sequences_entry)
  ultimately show ?thesis by blast
qed

theorem admission_notes_in_time_order_witness:
  "\<exists>ts. [''short'', ''patient admitted with chest pain and shortness of breath.'',
         ''stable overnight'']
        = map note_text (admission_rows (prepare example_table) 1 1)
      \<and> map charttime (admission_rows (prepare example_table) 1 1) = map Some ts
      \<and> sorted ts
      \<and> (\<exists>adms. (1, adms) \<in> set (process_noteevents example_table)
            \<and> combine min_note_len
                 [''short'', ''patient admitted with chest pain and shortness of breath.'',
                  ''stable overnight''] \<in> set adms)"
proof -
  let ?l = "[''short'', ''patient admitted with chest pain and shortness of breath.'',
      ''stable overnight'']"
  have a: "(1, [(1, ?l)]) \<in> set (notes_grouped (prepare example_table))"
    by code_simp
  have b: "(1, ?l) \<in> set [(1 :: int, ?l)]" by simp
  have c: "\<forall>r \<in> set (admission_rows (prepare example_table) 1 1). charttime r \<noteq> None"
    by code_simp
  show ?thesis using admission_notes_in_time_order [OF a b c] .
qed

section \<open>Claims on the selector\<close>

text \<open>
  C4: when there are fold-score files, all readable as score tables and one at least with
  a score, the selector picks one of them, and the mean Macro-F1 of the file it picks is
  at least the mean of every file of the set. The tag and the score of the report are
  those of this file.
\<close>

theorem best_file_has_the_greatest_mean:
  assumes "fold_score_files fls \<noteq> []"
    and "\<forall>f \<in> set (fold_score_files fls). readable fls f"
    and "\<exists>f \<in> set (fold_score_files fls). score fls f \<noteq> None"
  shows "\<exists>best_file avg. best_row fls = Inr (best_file, avg)
      \<and> best_file \<in> set (fold_score_files fls)
      \<and> score fls best_file = Some avg
      \<and> (\<forall>f \<in> set (fold_score_files fls). \<forall>v. score fls f = Some v \<longrightarrow> v \<le> avg)
      \<and> (\<forall>best_iter. search_iter best_file = Some best_iter \<longrightarrow>
            best_iteration fls = Inr (best_file, avg, best_iter))"
proof -
  from best_row_exists [OF assms(2,3)] obtain best_file avg
    where b: "best_row fls = Inr (best_file, avg)" by blast
  from best_row_characterisation [OF b] obtain i
    where i: "i < length (fold_score_files fls)" "fold_score_files fls ! i = best_file"
      "score fls best_file = Some avg"
      "\<forall>k < length (fold_score_files fls). \<forall>w.
          score fls (fold_score_files fls ! k) = Some w \<longrightarrow> w \<le> avg"
    by blast
  have "best_file \<in> set (fold_score_files fls)" using i(1,2) nth_mem by blast
  moreover have "\<forall>f \<in> set (fold_score_files fls). \<forall>v. score fls f = Some v \<longrightarrow> v \<le> avg"
    using i(4) by (metis in_set_conv_nth)
  moreover have "\<forall>best_iter. search_iter best_file = Some best_iter \<longrightarrow>
      best_iteration fls = Inr (best_file, avg, best_iter)"
    using b by (simp add: best_iteration_def)
  ultimately show ?thesis using b i(3) by blast
qed

theorem best_file_has_the_greatest_mean_witness:
  "\<exists>best_file avg. best_row example_dir = Inr (best_file, avg)
      \<and> best_file \<in> set (fold_score_files example_dir)
      \<and> score example_dir best_file = Some avg
      \<and> (\<forall>f \<in> set (fold_score_files example_dir). \<forall>v. score example_dir f = Some v \<longrightarrow> v \<le> avg)
      \<and> (\<forall>best_iter. search_iter best_file = Some best_iter \<longrightarrow>
            best_iteration example_dir = Inr (best_file, avg, best_iter))"
proof -
  have a: "fold_score_files example_dir \<noteq> []" by code_simp
  have b: "\<forall>f \<in> set (fold_score_files example_dir). readable example_dir f" by code_simp
  have c: "\<exists>f \<in> set (fold_score_files example_dir). score example_dir f \<noteq> None" by code_simp
  show ?thesis using best_file_has_the_greatest_mean [OF a b c] .
qed






text \<open>
  C6: when steps 1 to 3 give the winning tag, the run ends without error, and every path
  that matches \<open>stacker_binary_metrics_<tag>_*.csv\<close> is copied to \<open>BASE\<close> and its
  base name with every occurrence of the tag replaced by \<open>across_iterations\<close>; the file of
  that name holds, in the end, what a matching file with that new name held. Every copy
  reads an existing file of the winning iteration and writes a file that belongs to no
  iteration. A file of another iteration is the source of no copy, the destination of no
  copy, and holds in the end what it held.
\<close>

theorem winning_metrics_copied_and_other_iterations_untouched:
  assumes "best_iteration fls = Inr (best_file, avg, best_iter)"
  shows "\<exists>st. selector fmt4 fls = Inr st
    \<and> (\<forall>f \<in> set (metrics_files best_iter fls).
          (f, BASE @ replace best_iter ''across_iterations'' (basename f)) \<in> set (copies st)
          \<and> (\<exists>f' \<in> set (metrics_files best_iter fls).
                replace best_iter ''across_iterations'' (basename f')
                  = replace best_iter ''across_iterations'' (basename f)
                \<and> map_of (files st) (BASE @ replace best_iter ''across_iterations'' (basename f))
                  = map_of fls f'))
    \<and> (\<forall>(src, dst) \<in> set (copies st).
          belongs_to best_iter src \<and> map_of fls src \<noteq> None
          \<and> (\<forall>t. is_tag t \<longrightarrow> \<not> belongs_to t dst))
    \<and> (\<forall>t p. is_tag t \<and> t \<noteq> best_iter \<and> belongs_to t p \<longrightarrow>
          map_of (files st) p = map_of fls p
          \<and> p \<notin> fst ` set (copies st) \<and> p \<notin> snd ` set (copies st))"
proof -
  define ms where "ms = metrics_files best_iter fls"
  define d where "d = (\<lambda>f. path_join BASE (new_fname best_iter f))"
  have tg: "is_tag best_iter" using assms by (rule best_iteration_is_tag)
  from selector_trace [OF assms, of fmt4] obtain st
    where sel: "selector fmt4 fls = Inr st"
      and cp: "copies st =
        (if path_exists (txt_file best_iter) fls then [(txt_file best_iter, across_txt)] else [])
        @ (if path_exists (pkl_file best_iter) fls then [(pkl_file best_iter, across_pkl)] else [])
        @ map (\<lambda>f. (f, d f)) ms"
      and fr: "\<forall>p. p \<noteq> across_txt \<and> p \<noteq> across_pkl \<and> p \<noteq> output_model_card
          \<and> p \<notin> d ` set ms \<longrightarrow> map_of (files st) p = map_of fls p"
      and ct: "\<forall>f \<in> set ms. \<exists>f' \<in> set ms. d f' = d f \<and> map_of (files st) (d f) = map_of fls f'"
    unfolding ms_def d_def by blast
  have d_eq: "d f = BASE @ replace best_iter ''across_iterations'' (basename f)"
    if "f \<in> set ms" for f
  proof -
    from that have "glob_match (''stacker_binary_metrics_'' @ best_iter @ ''_'') ''.csv'' f"
      by (simp add: ms_def metrics_files_def glob_def)
    from new_fname_metrics [OF tg this] show ?thesis by (simp add: d_def)
  qed
  have dst_free: "\<not> belongs_to t (d f)" if "f \<in> set ms" "is_tag t" for f t
    using metrics_dst_not_source(5) [OF tg, of f fls t] that unfolding ms_def d_def by blast
  have copy_ok: "belongs_to best_iter src \<and> map_of fls src \<noteq> None
      \<and> (\<forall>t. is_tag t \<longrightarrow> \<not> belongs_to t dst)"
    if "(src, dst) \<in> set (copies st)" for src dst
  proof -
    from that consider
      (text_copy) "path_exists (txt_file best_iter) fls" "src = txt_file best_iter" "dst = across_txt"
      | (pickle_copy) "path_exists (pkl_file best_iter) fls" "src = pkl_file best_iter" "dst = across_pkl"
      | (metrics_copy) "src \<in> set ms" "dst = d src"
      unfolding cp by (auto split: if_splits)
    then show ?thesis
    proof cases
      case text_copy
      then show ?thesis
        by (simp add: belongs_to_txt_file not_belongs_to_across_txt path_exists_def)
    next
      case pickle_copy
      then show ?thesis
        by (simp add: belongs_to_pkl_file not_belongs_to_across_pkl path_exists_def)
    next
      case metrics_copy
      from metrics_copy(1) have "belongs_to best_iter src" "map_of fls src \<noteq> None"
        unfolding ms_def metrics_files_def
        by (simp_all add: belongs_to_metrics [unfolded metrics_files_def] glob_exists)
      with metrics_copy dst_free show ?thesis by blast
    qed
  qed
  have a: "\<forall>f \<in> set ms.
          (f, BASE @ replace best_iter ''across_iterations'' (basename f)) \<in> set (copies st)
          \<and> (\<exists>f' \<in> set ms.
                replace best_iter ''across_iterations'' (basename f')
                  = replace best_iter ''across_iterations'' (basename f)
                \<and> map_of (files st) (BASE @ replace best_iter ''across_iterations'' (basename f))
                  = map_of fls f')"
  proof
    fix f assume f: "f \<in> set ms"
    then have "(f, d f) \<in> set (copies st)" unfolding cp by simp
    moreover from ct f obtain f' where f': "f' \<in> set ms" "d f' = d f"
      "map_of (files st) (d f) = map_of fls f'" by blast
    ultimately show "(f, BASE @ replace best_iter ''across_iterations'' (basename f)) \<in> set (copies st)
          \<and> (\<exists>f' \<in> set ms.
                replace best_iter ''across_iterations'' (basename f')
                  = replace best_iter ''across_iterations'' (basename f)
                \<and> map_of (files st) (BASE @ replace best_iter ''across_iterations'' (basename f))
                  = map_of fls f')"
      using d_eq [OF f] d_eq [OF f'(1)] by auto
  qed
  have c: "map_of (files st) p = map_of fls p
          \<and> p \<notin> fst ` set (copies st) \<and> p \<notin> snd ` set (copies st)"
    if t: "is_tag t" "t \<noteq> best_iter" "belongs_to t p" for t p
  proof -
    have ns: "p \<noteq> src" and nd: "p \<noteq> dst" if "(src, dst) \<in> set (copies st)" for src dst
      using copy_ok [OF that] t tg belongs_to_unique by blast+
    have "p \<noteq> across_txt" "p \<noteq> across_pkl" "p \<noteq> output_model_card"
      using t not_belongs_to_across_txt not_belongs_to_across_pkl not_belongs_to_card
      by blast+
    moreover have "p \<notin> d ` set ms" using dst_free t by blast
    ultimately have "map_of (files st) p = map_of fls p" using fr by blast
    moreover have "p \<notin> fst ` set (copies st)" using ns by fastforce
    moreover have "p \<notin> snd ` set (copies st)" using nd by fastforce
    ultimately show ?thesis by blast
  qed
  from sel a copy_ok c show ?thesis unfolding ms_def by blast
qed

theorem winning_metrics_copied_and_other_iterations_untouched_witness:
  "\<exists>st. selector (\<lambda>r. ''0.7000'') example_dir = Inr st
    \<and> (''./stacker_binary_metrics_iter1_test.csv'',
        ''./stacker_binary_metrics_across_iterations_test.csv'') \<in> set (copies st)
    \<and> map_of (files st) ''./stacker_binary_metrics_iter2_test.csv'' = Some (Blob ''m2 test'')
    \<and> ''./stacker_binary_metrics_iter2_test.csv'' \<notin> fst ` set (copies st)
    \<and> ''./stacker_binary_metrics_iter2_test.csv'' \<notin> snd ` set (copies st)"
proof -
  let ?f = "''./stacker_binary_metrics_iter1_test.csv''"
  let ?p = "''./stacker_binary_metrics_iter2_test.csv''"
  have a: "best_iteration example_dir
      = Inr (''./stacker_best_model_folds_iter1.csv'', 7 / 10, ''iter1'')"
    by code_simp
  have m: "?f \<in> set (metrics_files ''iter1'' example_dir)" by code_simp
  have r: "BASE @ replace ''iter1'' ''across_iterations'' (basename ?f)
      = ''./stacker_binary_metrics_across_iterations_test.csv''"
    by code_simp
  have t: "is_tag ''iter2''" by code_simp
  have n: "''iter2'' \<noteq> ''iter1''" by simp
  have b: "belongs_to ''iter2'' ?p" by code_simp
  have o: "map_of example_dir ?p = Some (Blob ''m2 test'')" by code_simp
  note w = winning_metrics_copied_and_other_iterations_untouched [OF a, of "\<lambda>r. ''0.7000''"]
  from w obtain st where sel: "selector (\<lambda>r. ''0.7000'') example_dir = Inr st"
    and c: "\<forall>f \<in> set (metrics_files ''iter1'' example_dir).
        (f, BASE @ replace ''iter1'' ''across_iterations'' (basename f)) \<in> set (copies st)"
    and u: "\<forall>t p. is_tag t \<and> t \<noteq> ''iter1'' \<and> belongs_to t p \<longrightarrow>
          map_of (files st) p = map_of example_dir p
          \<and> p \<notin> fst ` set (copies st) \<and> p \<notin> snd ` set (copies st)"
    by (elim exE conjE) (rule that, assumption, blast, assumption)
  from c m have "(?f, BASE @ replace ''iter1'' ''across_iterations'' (basename ?f)) \<in> set (copies st)"
    by blast
  then have "(?f, ''./stacker_binary_metrics_across_iterations_test.csv'') \<in> set (copies st)"
    unfolding r .
  moreover from u t n b have "map_of (files st) ?p = map_of example_dir ?p
      \<and> ?p \<notin> fst ` set (copies st) \<and> ?p \<notin> snd ` set (copies st)"
    by blast
  ultimately have "selector (\<lambda>r. ''0.7000'') example_dir = Inr st
    \<and> (?f, ''./stacker_binary_metrics_across_iterations_test.csv'') \<in> set (copies st)
    \<and> map_of (files st) ?p = Some (Blob ''m2 test'')
    \<and> ?p \<notin> fst ` set (copies st)
    \<and> ?p \<notin> snd ` set (copies st)"
    using sel o by (simp only:) blast
  then show ?thesis ..
qed

text \<open>
  C10: when steps 1 to 3 give the winning tag, the run ends without error whether or not
  the \<open>.txt\<close> and \<open>.pkl\<close> files of the winning iteration exist. Where one does not
  exist, no copy writes its \<open>across_iterations\<close> name and the file of that name is as it
  was (absent, if it was). The report written holds the two lines that name
  \<open>stacker_best_model_across_iterations.txt\<close> and
  \<open>stacker_best_model_across_iterations.pkl\<close> in both cases.
\<close>

theorem missing_artifacts_are_skipped_but_listed:
  assumes "best_iteration fls = Inr (best_file, avg, best_iter)"
  shows "\<exists>st ms. selector fmt4 fls = Inr st
    \<and> map_of (files st) output_model_card
        = Some (Blob (concat (model_card fmt4 best_iter avg ms)))
    \<and> ''- `stacker_best_model_across_iterations.txt`\<newline>''
        \<in> set (model_card fmt4 best_iter avg ms)
    \<and> ''- `stacker_best_model_across_iterations.pkl`\<newline>''
        \<in> set (model_card fmt4 best_iter avg ms)
    \<and> (\<not> path_exists (txt_file best_iter) fls \<longrightarrow>
          across_txt \<notin> snd ` set (copies st)
          \<and> map_of (files st) across_txt = map_of fls across_txt)
    \<and> (\<not> path_exists (pkl_file best_iter) fls \<longrightarrow>
          across_pkl \<notin> snd ` set (copies st)
          \<and> map_of (files st) across_pkl = map_of fls across_pkl)"
proof -
  define ms where "ms = metrics_files best_iter fls"
  define d where "d = (\<lambda>f. path_join BASE (new_fname best_iter f))"
  have tg: "is_tag best_iter" using assms by (rule best_iteration_is_tag)
  from selector_trace [OF assms, of fmt4] obtain st
    where sel: "selector fmt4 fls = Inr st"
      and cp: "copies st =
        (if path_exists (txt_file best_iter) fls then [(txt_file best_iter, across_txt)] else [])
        @ (if path_exists (pkl_file best_iter) fls then [(pkl_file best_iter, across_pkl)] else [])
        @ map (\<lambda>f. (f, d f)) ms"
      and card: "map_of (files st) output_model_card
        = Some (Blob (concat (model_card fmt4 best_iter avg ms)))"
      and xt: "\<not> path_exists (txt_file best_iter) fls \<longrightarrow>
          map_of (files st) across_txt = map_of fls across_txt"
      and xp: "\<not> path_exists (pkl_file best_iter) fls \<longrightarrow>
          map_of (files st) across_pkl = map_of fls across_pkl"
    unfolding ms_def d_def by blast
  have nd: "across_txt \<noteq> d f" "across_pkl \<noteq> d f" if "f \<in> set ms" for f
    using metrics_dst_not_source(2,3) [OF tg, of f fls] that unfolding ms_def d_def by metis+
  have ne: "across_txt \<noteq> across_pkl" by (simp add: across_txt_eq across_pkl_eq)
  have "across_txt \<notin> snd ` set (copies st)" if "\<not> path_exists (txt_file best_iter) fls"
    unfolding cp using that nd(1) ne by (auto split: if_splits)
  moreover have "across_pkl \<notin> snd ` set (copies st)" if "\<not> path_exists (pkl_file best_iter) fls"
    unfolding cp using that nd(2) ne by (auto split: if_splits)
  moreover have "''- `stacker_best_model_across_iterations.txt`\<newline>''
        \<in> set (model_card fmt4 best_iter avg ms)"
    "''- `stacker_best_model_across_iterations.pkl`\<newline>''
        \<in> set (model_card fmt4 best_iter avg ms)"
    by (simp_all add: model_card_def)
  ultimately show ?thesis using sel card xt xp by blast
qed

theorem missing_artifacts_are_skipped_but_listed_witness:
  "\<exists>st ms. selector (\<lambda>r. ''0.7000'') example_dir = Inr st
    \<and> \<not> path_exists (pkl_file ''iter1'') example_dir
    \<and> across_pkl \<notin> snd ` set (copies st)
    \<and> map_of (files st) across_pkl = None
    \<and> map_of (files st) output_model_card
        = Some (Blob (concat (model_card (\<lambda>r. ''0.7000'') ''iter1'' (7 / 10) ms)))
    \<and> ''- `stacker_best_model_across_iterations.pkl`\<newline>''
        \<in> set (model_card (\<lambda>r. ''0.7000'') ''iter1'' (7 / 10) ms)"
proof -
  have a: "best_iteration example_dir
      = Inr (''./stacker_best_model_folds_iter1.csv'', 7 / 10, ''iter1'')"
    by code_simp
  have p: "\<not> path_exists (pkl_file ''iter1'') example_dir" by code_simp
  have o: "map_of example_dir across_pkl = None" by code_simp
  from missing_artifacts_are_skipped_but_listed [OF a, of "\<lambda>r. ''0.7000''"]
  obtain st ms where sel: "selector (\<lambda>r. ''0.7000'') example_dir = Inr st"
    and card: "map_of (files st) output_model_card
        = Some (Blob (concat (model_card (\<lambda>r. ''0.7000'') ''iter1'' (7 / 10) ms)))"
    and line: "''- `stacker_best_model_across_iterations.pkl`\<newline>''
        \<in> set (model_card (\<lambda>r. ''0.7000'') ''iter1'' (7 / 10) ms)"
    and skip: "\<not> path_exists (pkl_file ''iter1'') example_dir \<longrightarrow>
          across_pkl \<notin> snd ` set (copies st)
          \<and> map_of (files st) across_pkl = map_of example_dir across_pkl"
    by (elim exE conjE) (rule that, assumption+)
  from skip p have k1: "across_pkl \<notin> snd ` set (copies st)"
    and k2: "map_of (files st) across_pkl = map_of example_dir across_pkl" by blast+
  have k3: "map_of (files st) across_pkl = None" unfolding k2 by (rule o)
  from sel p k1 k3 card line have "selector (\<lambda>r. ''0.7000'') example_dir = Inr st
    \<and> \<not> path_exists (pkl_file ''iter1'') example_dir
    \<and> across_pkl \<notin> snd ` set (copies st)
    \<and> map_of (files st) across_pkl = None
    \<and> map_of (files st) output_model_card
        = Some (Blob (concat (model_card (\<lambda>r. ''0.7000'') ''iter1'' (7 / 10) ms)))
    \<and> ''- `stacker_best_model_across_iterations.pkl`\<newline>''
        \<in> set (model_card (\<lambda>r. ''0.7000'') ''iter1'' (7 / 10) ms)"
    by (intro conjI)
  then show ?thesis by (intro exI)
qed

section \<open>Claims on the resource logger\<close>

text \<open>
  C8: from no log file, invocations one after the other, each block running to its end,
  leave a file of one header row and then one row for each invocation, in order, the row
  of an invocation starting with its tag; with no invocation there is still no file. One
  invocation writes the header exactly when there is no file, and then its row.
\<close>

theorem log_has_one_header_and_a_row_per_run:
  "run_logged fmt runs None
     = (if runs = [] then None else Some (header # map (\<lambda>(tag, s). log_row fmt tag s) runs))
   \<and> map hd (map (\<lambda>(tag, s). log_row fmt tag s) runs) = map fst runs
   \<and> ResourceLogger fmt tag s None = Some [header, log_row fmt tag s]
   \<and> ResourceLogger fmt tag s (Some rows) = Some (rows @ [log_row fmt tag s])"
proof (intro conjI)
  show "run_logged fmt runs None
     = (if runs = [] then None else Some (header # map (\<lambda>(tag, s). log_row fmt tag s) runs))"
    by (cases runs) (auto simp: run_logged_existing ResourceLogger_def)
  show "map hd (map (\<lambda>(tag, s). log_row fmt tag s) runs) = map fst runs"
    by (induction runs) (auto simp: log_row_def Let_def)
qed (simp_all add: ResourceLogger_def)

end
